theory Spec2Isabelle
  imports Complex_Main "HOL-Library.Multiset"
begin

section \<open>Two-column detection of visualizer-test.py\<close>

text \<open>
  A shallow embedding of \<^verbatim>\<open>_is_likely_spanning_box\<close> and \<^verbatim>\<open>detect_two_columns\<close>
  of \<^verbatim>\<open>src/visualizer-test.py\<close>.

  Numbers. Bounding boxes hold Python ints (the annotation is \<^verbatim>\<open>list[int]\<close>), modelled
  as \<^typ>\<open>int\<close>. Every value the source computes with \<^verbatim>\<open>/\<close>, with a float constant
  or with \<^verbatim>\<open>np.median\<close> is modelled as an exact rational (\<^typ>\<open>rat\<close>): the constants
  0.7, 0.25, 0.75, 0.3 and 0.4 are 7/10, 1/4, 3/4, 3/10 and 2/5. The rounding of IEEE
  doubles is not modelled.

  Errors. Unpacking a list whose length is not 4 raises \<^verbatim>\<open>ValueError\<close>; the functions
  return \<open>error + result\<close>, with \<open>Inl\<close> the exception.
\<close>

subsection \<open>Data\<close>

datatype error = ValueError

text \<open>
  A layout is a dict read from JSON. \<^verbatim>\<open>layout.get(k)\<close> is \<open>None\<close> when the key is
  absent, hence every field is an option. Only the first two fields are read by
  \<^verbatim>\<open>detect_two_columns\<close>; the others are the keys the rest of the script reads or
  writes (\<^verbatim>\<open>'label'\<close>, \<^verbatim>\<open>'text'\<close>, \<^verbatim>\<open>'_is_two_column_debug'\<close>).
\<close>

record layout =
  bbox_layout :: "int list option"
  bbox_text :: "int list list option"
  label :: "string option"
  text_content :: "string list option"
  is_two_column_debug :: "bool option"

text \<open>The entries of \<^verbatim>\<open>centered_boxes\<close> (line 97) and of \<^verbatim>\<open>potential_gutters\<close> (lines 117-121).\<close>

record centered_box =
  cx :: rat
  bbox :: "int list"

record gutter =
  gutter_x_candidate :: rat
  gap_width_centers :: rat
  split_index :: nat

subsection \<open>Module constants (lines 10-30)\<close>

definition SPANNING_BOX_WIDTH_RATIO_THRESHOLD :: rat where
  "SPANNING_BOX_WIDTH_RATIO_THRESHOLD = 7 / 10"

definition ABSOLUTE_SPANNING_WIDTH_THRESHOLD :: int where
  "ABSOLUTE_SPANNING_WIDTH_THRESHOLD = 700"

definition MIN_BOXES_FOR_COLUMN_CONSIDERATION :: nat where
  "MIN_BOXES_FOR_COLUMN_CONSIDERATION = 4"

definition MIN_BOXES_PER_DETECTED_COLUMN :: nat where
  "MIN_BOXES_PER_DETECTED_COLUMN = 2"

definition GUTTER_SEARCH_RANGE_LAYOUT_RATIO :: "rat \<times> rat" where
  "GUTTER_SEARCH_RANGE_LAYOUT_RATIO = (1 / 4, 3 / 4)"

definition ALLOWED_INTER_COLUMN_MEDIAN_OVERLAP :: int where
  "ALLOWED_INTER_COLUMN_MEDIAN_OVERLAP = 20"

definition MIN_COLUMN_HEIGHT_LAYOUT_RATIO :: rat where
  "MIN_COLUMN_HEIGHT_LAYOUT_RATIO = 3 / 10"

definition MIN_VERTICAL_OVERLAP_RATIO_OF_SHORTER_COLUMN :: rat where
  "MIN_VERTICAL_OVERLAP_RATIO_OF_SHORTER_COLUMN = 2 / 5"

definition MIN_LAYOUT_HEIGHT_FOR_TWO_COLUMN :: int where
  "MIN_LAYOUT_HEIGHT_FOR_TWO_COLUMN = 300"

subsection \<open>Python and numpy primitives\<close>

text \<open>\<^verbatim>\<open>a, b, c, d = xs\<close>: raises \<^verbatim>\<open>ValueError\<close> unless \<open>xs\<close> has exactly four items.\<close>

fun unpack4 :: "int list \<Rightarrow> error + (int \<times> int \<times> int \<times> int)" where
  "unpack4 [a, b, c, d] = Inr (a, b, c, d)"
| "unpack4 _ = Inl ValueError"

text \<open>
  \<^verbatim>\<open>max(iterable, key=f)\<close> on a non-empty iterable: CPython keeps the current best and
  replaces it only by an item whose key is strictly greater, so the first maximal item
  wins. The first argument after the key is the first item, the list is the rest.
\<close>

fun max_key :: "('a \<Rightarrow> rat) \<Rightarrow> 'a \<Rightarrow> 'a list \<Rightarrow> 'a" where
  "max_key f best [] = best"
| "max_key f best (x # xs) = max_key f (if f x > f best then x else best) xs"

text \<open>
  \<^verbatim>\<open>np.median\<close> of a non-empty list of ints: the middle item of the sorted list, or the
  mean of the two middle items when the length is even. Both call sites (lines 143-144)
  come after the check of line 138, so the list has at least two items there.
\<close>

definition median :: "int list \<Rightarrow> rat" where
  "median xs =
     (let s = sort xs; n = length s in
      if n mod 2 = 1 then rat_of_int (s ! (n div 2))
      else (rat_of_int (s ! (n div 2 - 1)) + rat_of_int (s ! (n div 2))) / 2)"

subsection \<open>\<^verbatim>\<open>_is_likely_spanning_box\<close> (lines 33-54)\<close>

definition is_likely_spanning_box :: "int list \<Rightarrow> int list \<Rightarrow> error + bool" where
  "is_likely_spanning_box text_bbox layout_bbox =
     (case unpack4 text_bbox of
        Inl e \<Rightarrow> Inl e
      | Inr (box_x_start, _, box_x_end, _) \<Rightarrow>
     (case unpack4 layout_bbox of
        Inl e \<Rightarrow> Inl e
      | Inr (layout_x_start, _, layout_x_end, _) \<Rightarrow>
          let box_width = box_x_end - box_x_start;
              layout_width = layout_x_end - layout_x_start
          in if layout_width = 0 then Inr False
             else if rat_of_int box_width / rat_of_int layout_width
                       > SPANNING_BOX_WIDTH_RATIO_THRESHOLD then Inr True
             else if box_width > ABSOLUTE_SPANNING_WIDTH_THRESHOLD then Inr True
             else Inr False))"

subsection \<open>\<^verbatim>\<open>detect_two_columns\<close> (lines 57-177)\<close>

text \<open>
  Step 1, the loop of lines 83-86: the boxes that are not spanning, in input order. The
  call on a box of the wrong length raises, and the exception leaves the loop.
\<close>

fun non_spanning_boxes :: "int list list \<Rightarrow> int list \<Rightarrow> error + int list list" where
  "non_spanning_boxes [] layout_bbox = Inr []"
| "non_spanning_boxes (b # bs) layout_bbox =
     (case is_likely_spanning_box b layout_bbox of
        Inl e \<Rightarrow> Inl e
      | Inr spanning \<Rightarrow>
          (case non_spanning_boxes bs layout_bbox of
             Inl e \<Rightarrow> Inl e
           | Inr rest \<Rightarrow> Inr (if spanning then rest else b # rest)))"

text \<open>
  Step 2, lines 94-100. Every box that reaches this point was unpacked on line 37, so it
  has four items and \<^verbatim>\<open>bbox[0]\<close>, \<^verbatim>\<open>bbox[2]\<close> are in range. Python's \<^verbatim>\<open>sorted\<close> is
  stable, as \<^const>\<open>sort_key\<close> is.
\<close>

definition centered_boxes :: "int list list \<Rightarrow> centered_box list" where
  "centered_boxes boxes =
     map (\<lambda>b. \<lparr>cx = (rat_of_int (b ! 0) + rat_of_int (b ! 2)) / 2, bbox = b\<rparr>) boxes"

definition sorted_boxes_by_cx :: "int list list \<Rightarrow> centered_box list" where
  "sorted_boxes_by_cx boxes = sort_key cx (centered_boxes boxes)"

text \<open>The body of the loop of lines 105-121 at index \<open>i\<close>: the candidate it appends, if any.\<close>

definition gutter_at :: "int \<Rightarrow> int \<Rightarrow> centered_box list \<Rightarrow> nat \<Rightarrow> gutter option" where
  "gutter_at layout_x_start layout_width sorted_cx i =
     (let box_left_of_gap = sorted_cx ! i;
          box_right_of_gap = sorted_cx ! (i + 1);
          gap_center_midpoint = (cx box_left_of_gap + cx box_right_of_gap) / 2;
          gap_width = cx box_right_of_gap - cx box_left_of_gap;
          min_gutter_x = rat_of_int layout_x_start
                           + rat_of_int layout_width * fst GUTTER_SEARCH_RANGE_LAYOUT_RATIO;
          max_gutter_x = rat_of_int layout_x_start
                           + rat_of_int layout_width * snd GUTTER_SEARCH_RANGE_LAYOUT_RATIO
      in if min_gutter_x \<le> gap_center_midpoint \<and> gap_center_midpoint \<le> max_gutter_x
            \<and> gap_width > 0
         then Some \<lparr>gutter_x_candidate = gap_center_midpoint,
                    gap_width_centers = gap_width,
                    split_index = i\<rparr>
         else None)"

definition potential_gutters :: "int \<Rightarrow> int \<Rightarrow> centered_box list \<Rightarrow> gutter list" where
  "potential_gutters layout_x_start layout_width sorted_cx =
     List.map_filter (gutter_at layout_x_start layout_width sorted_cx)
       [0 ..< length sorted_cx - 1]"

text \<open>
  Steps 1 to 3, lines 69-135: \<open>Inr None\<close> is one of the \<^verbatim>\<open>return False\<close> of lines 73,
  80, 89 and 124; \<open>Inr (Some (layout_height, left_column_boxes, right_column_boxes))\<close>
  is the state in which line 137 is reached.
\<close>

definition split_columns :: "layout \<Rightarrow> error + (int \<times> int list list \<times> int list list) option" where
  "split_columns layout =
     (case bbox_layout layout of
        None \<Rightarrow> Inr None
      | Some layout_bbox \<Rightarrow>
     (case bbox_text layout of
        None \<Rightarrow> Inr None
      | Some text_bboxes \<Rightarrow>
          if layout_bbox = [] \<or> text_bboxes = [] then Inr None
          else
     (case unpack4 layout_bbox of
        Inl e \<Rightarrow> Inl e
      | Inr (layout_x_start, layout_y_start, layout_x_end, layout_y_end) \<Rightarrow>
          let layout_width = layout_x_end - layout_x_start;
              layout_height = layout_y_end - layout_y_start
          in if layout_height < MIN_LAYOUT_HEIGHT_FOR_TWO_COLUMN \<or> layout_width < 200
             then Inr None
             else
     (case non_spanning_boxes text_bboxes layout_bbox of
        Inl e \<Rightarrow> Inl e
      | Inr boxes \<Rightarrow>
          if length boxes < MIN_BOXES_FOR_COLUMN_CONSIDERATION then Inr None
          else
            let sorted_cx = sorted_boxes_by_cx boxes in
            (case potential_gutters layout_x_start layout_width sorted_cx of
               [] \<Rightarrow> Inr None
             | g # gs \<Rightarrow>
                 let best_gutter_candidate = max_key gap_width_centers g gs;
                     split_idx = split_index best_gutter_candidate;
                     left_column_boxes = map bbox (take (split_idx + 1) sorted_cx);
                     right_column_boxes = map bbox (drop (split_idx + 1) sorted_cx)
                 in Inr (Some (layout_height, left_column_boxes, right_column_boxes)))))))"

text \<open>
  Step 4b, lines 150-177. \<^verbatim>\<open>min\<close> and \<^verbatim>\<open>max\<close> of a generator are taken after the
  emptiness check of line 152. The division of line 174 is in the \<^verbatim>\<open>elif\<close> of the test
  \<^verbatim>\<open>shorter_column_height == 0\<close>. When that height is 0 and the overlap is not, no
  branch returns and line 177 returns \<^verbatim>\<open>True\<close>.
\<close>

definition vertical_cohesion :: "int \<Rightarrow> int list list \<Rightarrow> int list list \<Rightarrow> bool" where
  "vertical_cohesion layout_height left_column_boxes right_column_boxes =
     (if left_column_boxes = [] \<or> right_column_boxes = [] then False
      else
        let min_y_L = Min (set (map (\<lambda>b. b ! 1) left_column_boxes));
            max_y_L = Max (set (map (\<lambda>b. b ! 3) left_column_boxes));
            height_L = max_y_L - min_y_L;
            min_y_R = Min (set (map (\<lambda>b. b ! 1) right_column_boxes));
            max_y_R = Max (set (map (\<lambda>b. b ! 3) right_column_boxes));
            height_R = max_y_R - min_y_R
        in if rat_of_int height_L < rat_of_int layout_height * MIN_COLUMN_HEIGHT_LAYOUT_RATIO
              \<or> rat_of_int height_R < rat_of_int layout_height * MIN_COLUMN_HEIGHT_LAYOUT_RATIO
           then False
           else
             let vertical_overlap_amount = max 0 (min max_y_L max_y_R - max min_y_L min_y_R);
                 shorter_column_height = min height_L height_R
             in if shorter_column_height = 0
                then (if vertical_overlap_amount = 0 then False else True)
                else if rat_of_int vertical_overlap_amount / rat_of_int shorter_column_height
                          < MIN_VERTICAL_OVERLAP_RATIO_OF_SHORTER_COLUMN
                then False
                else True)"

text \<open>Step 4a, lines 142-146: the quantity compared with the allowed overlap.\<close>

definition median_gap :: "int list list \<Rightarrow> int list list \<Rightarrow> rat" where
  "median_gap left_column_boxes right_column_boxes =
     (let median_x_end_left = median (map (\<lambda>b. b ! 2) left_column_boxes);
          median_x_start_right = median (map (\<lambda>b. b ! 0) right_column_boxes)
      in median_x_start_right - median_x_end_left)"

text \<open>Step 4, lines 137-177.\<close>

definition validate_columns :: "int \<Rightarrow> int list list \<Rightarrow> int list list \<Rightarrow> bool" where
  "validate_columns layout_height left_column_boxes right_column_boxes =
     (if length left_column_boxes < MIN_BOXES_PER_DETECTED_COLUMN
         \<or> length right_column_boxes < MIN_BOXES_PER_DETECTED_COLUMN then False
      else if median_gap left_column_boxes right_column_boxes
                < - rat_of_int ALLOWED_INTER_COLUMN_MEDIAN_OVERLAP then False
      else vertical_cohesion layout_height left_column_boxes right_column_boxes)"

definition detect_two_columns :: "layout \<Rightarrow> error + bool" where
  "detect_two_columns layout =
     (case split_columns layout of
        Inl e \<Rightarrow> Inl e
      | Inr None \<Rightarrow> Inr False
      | Inr (Some (layout_height, left_column_boxes, right_column_boxes)) \<Rightarrow>
          Inr (validate_columns layout_height left_column_boxes right_column_boxes))"

subsection \<open>Order statistics and the median, stated without sorting\<close>

text \<open>
  Reference notions, used only to state what the code's \<^const>\<open>median\<close> computes. The
  value \<open>v\<close> is the \<open>k\<close>-th smallest item of \<open>xs\<close> (counting from 0) when it occurs in
  \<open>xs\<close>, at most \<open>k\<close> items are smaller than it and more than \<open>k\<close> items are not greater.
  A median of \<open>xs\<close> is the mean of its two middle order statistics, which are the same
  item when the length is odd.
\<close>

definition order_statistic :: "int list \<Rightarrow> nat \<Rightarrow> int \<Rightarrow> bool" where
  "order_statistic xs k v \<longleftrightarrow>
     v \<in> set xs \<and> length (filter (\<lambda>x. x < v) xs) \<le> k \<and> k < length (filter (\<lambda>x. x \<le> v) xs)"

definition is_median :: "int list \<Rightarrow> rat \<Rightarrow> bool" where
  "is_median xs m \<longleftrightarrow>
     (\<exists>a \<in> set xs. \<exists>b \<in> set xs.
        order_statistic xs ((length xs - 1) div 2) a
        \<and> order_statistic xs (length xs div 2) b
        \<and> m = (rat_of_int a + rat_of_int b) / 2)"

subsection \<open>Horizontal mirroring\<close>

text \<open>
  Reference notions for the mirror symmetry. Mirroring about the vertical line
  \<open>x = s / 2\<close> sends \<open>x\<close> to \<open>s - x\<close>, so a box keeps its width and its \<^verbatim>\<open>x_start\<close> and
  \<^verbatim>\<open>x_end\<close> change roles. A layout is mirrored about the center line of its own
  bounding box, \<open>s = layout_x_start + layout_x_end\<close>, which leaves that box in place. A
  list that does not unpack into four items is left as it is.
\<close>

definition mirror_box :: "int \<Rightarrow> int list \<Rightarrow> int list" where
  "mirror_box s b =
     (case unpack4 b of
        Inl e \<Rightarrow> b
      | Inr (x_start, y_start, x_end, y_end) \<Rightarrow> [s - x_end, y_start, s - x_start, y_end])"

definition mirror_layout :: "layout \<Rightarrow> layout" where
  "mirror_layout l =
     (case bbox_layout l of
        None \<Rightarrow> l
      | Some layout_bbox \<Rightarrow>
          (case unpack4 layout_bbox of
             Inl e \<Rightarrow> l
           | Inr (layout_x_start, _, layout_x_end, _) \<Rightarrow>
               l\<lparr>bbox_layout := Some (mirror_box (layout_x_start + layout_x_end) layout_bbox),
                 bbox_text :=
                   map_option (map (mirror_box (layout_x_start + layout_x_end))) (bbox_text l)\<rparr>))"

text \<open>
  No two different candidates share the largest width. The second definition reads the
  candidates off a layout as lines 83-121 compute them from the layout box and the text
  boxes; it holds when the layout lacks one of the two, or when unpacking raises.
\<close>

definition unique_widest :: "gutter list \<Rightarrow> bool" where
  "unique_widest pgs \<longleftrightarrow>
     (\<forall>g \<in> set pgs. \<forall>h \<in> set pgs.
        (\<forall>k \<in> set pgs. gap_width_centers k \<le> gap_width_centers g)
        \<and> gap_width_centers h = gap_width_centers g \<longrightarrow> h = g)"

definition widest_gap_unique :: "layout \<Rightarrow> bool" where
  "widest_gap_unique l =
     (case bbox_layout l of
        None \<Rightarrow> True
      | Some layout_bbox \<Rightarrow>
     (case bbox_text l of
        None \<Rightarrow> True
      | Some text_bboxes \<Rightarrow>
     (case unpack4 layout_bbox of
        Inl e \<Rightarrow> True
      | Inr (layout_x_start, _, layout_x_end, _) \<Rightarrow>
     (case non_spanning_boxes text_bboxes layout_bbox of
        Inl e \<Rightarrow> True
      | Inr boxes \<Rightarrow>
          unique_widest
            (potential_gutters layout_x_start (layout_x_end - layout_x_start)
               (sorted_boxes_by_cx boxes))))))"

subsection \<open>Example layouts\<close>

text \<open>
  Six narrow boxes in a layout of 1000 by 800 pixels. Their x-centers are 100, 110, 410,
  420, 720 and 730, so that two gaps in the central band share the largest width 300.
\<close>

definition example_boxes :: "int list list" where
  "example_boxes =
     [[90, 0, 110, 400], [100, 400, 120, 800],
      [400, 0, 420, 400], [410, 400, 430, 800],
      [710, 0, 730, 100], [720, 100, 740, 200]]"

definition example_layout :: layout where
  "example_layout =
     \<lparr>bbox_layout = Some [0, 0, 1000, 800], bbox_text = Some example_boxes,
      label = Some ''Text'', text_content = None, is_two_column_debug = Some False\<rparr>"

text \<open>The same six boxes in another input order.\<close>

definition shuffled_boxes :: "int list list" where
  "shuffled_boxes =
     [[710, 0, 730, 100], [100, 400, 120, 800], [410, 400, 430, 800],
      [90, 0, 110, 400], [720, 100, 740, 200], [400, 0, 420, 400]]"

definition shuffled_layout :: layout where
  "shuffled_layout = example_layout\<lparr>bbox_text := Some shuffled_boxes\<rparr>"

text \<open>
  Two groups of three boxes that overlap horizontally. The left group's \<^verbatim>\<open>x_end\<close> are
  420, 420 and 100 (median 420, mean about 313); the right group's \<^verbatim>\<open>x_start\<close> are 350,
  350 and 985 (median 350, mean about 562).
\<close>

definition overlapping_boxes :: "int list list" where
  "overlapping_boxes =
     [[985, 600, 995, 800], [10, 300, 420, 600], [350, 0, 700, 300],
      [90, 600, 100, 800], [350, 300, 710, 600], [0, 0, 420, 300]]"

definition overlapping_layout :: layout where
  "overlapping_layout = example_layout\<lparr>bbox_text := Some overlapping_boxes\<rparr>"

text \<open>
  Two boxes on the left (x-centers 100 and 110) and two on the right (700 and 710), in
  mixed input order. The only candidates are the gap from 110 to 700 and the gap from
  700 to 710, so the widest one is unique. The layout is not its own mirror image.
\<close>

definition two_column_boxes :: "int list list" where
  "two_column_boxes =
     [[690, 0, 710, 400], [90, 0, 110, 400], [700, 400, 720, 800], [100, 400, 120, 800]]"

definition two_column_layout :: layout where
  "two_column_layout = example_layout\<lparr>bbox_text := Some two_column_boxes\<rparr>"


section \<open>Properties\<close>

subsection \<open>Auxiliary facts\<close>

lemma split_columns_too_small:
  assumes "bbox_layout l = Some [x0, y0, x1, y1]"
      and "y1 - y0 < 300 \<or> x1 - x0 < 200"
    shows "split_columns l = Inr None"
  using assms
  by (cases "bbox_text l") (auto simp: split_columns_def MIN_LAYOUT_HEIGHT_FOR_TWO_COLUMN_def)

lemma non_spanning_boxes_Inr_unpack:
  assumes "non_spanning_boxes tbs lb = Inr ns" "tbs \<noteq> []"
  shows "\<exists>q. unpack4 lb = Inr q"
  using assms
  by (cases tbs) (auto simp: is_likely_spanning_box_def split: sum.splits)

lemma split_columns_layout_height:
  assumes "split_columns l = Inr (Some (lh, L, R))"
  shows "300 \<le> lh"
  using assms
  by (auto simp: split_columns_def Let_def MIN_LAYOUT_HEIGHT_FOR_TWO_COLUMN_def
        split: option.splits if_splits sum.splits prod.splits list.splits)

lemma split_columns_example:
  "split_columns example_layout
     = Inr (Some (800, take 2 example_boxes, drop 2 example_boxes))"
  by code_simp

lemma max_key_first:
  "\<exists>ys zs. b # xs = ys @ max_key f b xs # zs
      \<and> (\<forall>y \<in> set ys. f y < f (max_key f b xs))
      \<and> (\<forall>z \<in> set zs. f z \<le> f (max_key f b xs))"
proof (induction xs arbitrary: b)
  case Nil
  show ?case by (rule exI [of _ "[]"], rule exI [of _ "[]"]) simp
next
  case (Cons x xs)
  show ?case
  proof (cases "f x > f b")
    case True
    define m where "m = max_key f x xs"
    have m: "max_key f b (x # xs) = m" using True by (simp add: m_def)
    from Cons.IH [of x] obtain ys zs where
      dec: "x # xs = ys @ m # zs"
      and lt: "\<forall>y \<in> set ys. f y < f m" and le: "\<forall>z \<in> set zs. f z \<le> f m"
      unfolding m_def by blast
    have "x \<in> set (ys @ m # zs)" by (metis dec list.set_intros(1))
    with lt le have "f x \<le> f m" by (auto simp: less_imp_le)
    with True have "f b < f m" by simp
    with lt have lt': "\<forall>y \<in> set (b # ys). f y < f m" by simp
    have "b # x # xs = (b # ys) @ m # zs" using dec by simp
    with lt' le show ?thesis unfolding m by blast
  next
    case False
    define m where "m = max_key f b xs"
    have m: "max_key f b (x # xs) = m" using False by (simp add: m_def)
    from Cons.IH [of b] obtain ys zs where
      dec: "b # xs = ys @ m # zs"
      and lt: "\<forall>y \<in> set ys. f y < f m" and le: "\<forall>z \<in> set zs. f z \<le> f m"
      unfolding m_def by blast
    show ?thesis
    proof (cases ys)
      case Nil
      with dec have mb: "m = b" and zs: "zs = xs" by simp_all
      have "f x \<le> f m" using False mb by simp
      with le zs have le': "\<forall>z \<in> set (x # xs). f z \<le> f m" by simp
      have "b # x # xs = [] @ m # (x # xs)" using mb by simp
      with le' show ?thesis unfolding m by (metis empty_iff list.set(1))
    next
      case (Cons y ys')
      with dec have yb: "y = b" and xs: "xs = ys' @ m # zs" by simp_all
      have "f b < f m" using lt Cons yb by simp
      with False have "f x < f m" by simp
      with lt Cons yb have lt': "\<forall>y \<in> set (b # x # ys'). f y < f m" by simp
      have "b # x # xs = (b # x # ys') @ m # zs" using xs by simp
      with lt' le show ?thesis unfolding m by blast
    qed
  qed
qed

lemma map_filter_upt_index:
  assumes "\<And>i g. h i = Some g \<Longrightarrow> idx g = i"
  shows "map idx (List.map_filter h [0..<n]) = filter (\<lambda>i. h i \<noteq> None) [0..<n]"
proof -
  have "map idx (List.map_filter h xs) = filter (\<lambda>i. h i \<noteq> None) xs" for xs
    by (induction xs) (auto simp: List.map_filter_simps assms split: option.splits)
  then show ?thesis .
qed

lemma split_index_potential_gutters:
  "map split_index (potential_gutters x0 w srt)
     = filter (\<lambda>i. gutter_at x0 w srt i \<noteq> None) [0..<length srt - 1]"
  unfolding potential_gutters_def
  by (rule map_filter_upt_index) (auto simp: gutter_at_def Let_def split: if_splits)

lemma strict_sorted_split_index:
  "sorted_wrt (<) (map split_index (potential_gutters x0 w srt))"
  unfolding split_index_potential_gutters
  by (simp add: sorted_wrt_filter)

lemma first_max_is_leftmost:
  assumes dec: "pgs = ys @ m # zs"
      and lt: "\<forall>y \<in> set ys. f y < (f m :: rat)"
      and srt: "sorted_wrt (<) (map idx pgs)"
      and g: "g \<in> set pgs" and eq: "f g = f m"
    shows "idx m \<le> (idx g :: nat)"
proof -
  from g dec lt eq have "g = m \<or> g \<in> set zs" by auto
  moreover have "\<forall>z \<in> set zs. idx m < idx z"
    using srt unfolding dec by (simp add: sorted_wrt_append)
  ultimately show ?thesis by auto
qed

lemma length_filter_mset: "mset xs = mset ys \<Longrightarrow> length (filter P xs) = length (filter P ys)"
  by (metis mset_filter size_mset)

lemma order_statistic_sort:
  assumes k: "k < length xs"
  shows "order_statistic xs k (sort xs ! k)"
proof -
  define s where "s = sort xs"
  define v where "v = s ! k"
  have ms: "mset s = mset xs" and srt: "sorted s" and len: "length s = length xs"
    by (simp_all add: s_def)
  have mem: "v \<in> set xs"
    using k len ms by (metis mset_eq_setD nth_mem v_def)
  have s: "s = take k s @ drop k s" by simp
  have ge: "v \<le> x" if "x \<in> set (drop k s)" for x
  proof -
    from that obtain i where "i < length s - k" "x = s ! (k + i)"
      by (auto simp: in_set_conv_nth)
    then show ?thesis
      using sorted_nth_mono [OF srt, of k "k + i"] by (simp add: v_def)
  qed
  have "filter (\<lambda>x. x < v) s = filter (\<lambda>x. x < v) (take k s) @ filter (\<lambda>x. x < v) (drop k s)"
    by (metis s filter_append)
  moreover have "\<not> x < v" if "x \<in> set (drop k s)" for x
    using ge [OF that] by simp
  then have "filter (\<lambda>x. x < v) (drop k s) = []"
    by (simp add: filter_empty_conv)
  ultimately have "length (filter (\<lambda>x. x < v) s) \<le> length (take k s)"
    by (metis append_Nil2 length_filter_le)
  then have lt: "length (filter (\<lambda>x. x < v) xs) \<le> k"
    using length_filter_mset [OF ms, of "\<lambda>x. x < v"] by simp
  have le': "x \<le> v" if "x \<in> set (take (k + 1) s)" for x
  proof -
    from that obtain i where "i < k + 1" "i < length s" "x = s ! i"
      by (auto simp: in_set_conv_nth)
    then show ?thesis
      using sorted_nth_mono [OF srt, of i k] k len by (simp add: v_def)
  qed
  have "filter (\<lambda>x. x \<le> v) s
          = filter (\<lambda>x. x \<le> v) (take (k + 1) s) @ filter (\<lambda>x. x \<le> v) (drop (k + 1) s)"
    by (metis append_take_drop_id filter_append)
  moreover have "filter (\<lambda>x. x \<le> v) (take (k + 1) s) = take (k + 1) s"
    using le' by (simp add: filter_id_conv)
  ultimately have "length (take (k + 1) s) \<le> length (filter (\<lambda>x. x \<le> v) s)"
    by simp
  then have "k < length (filter (\<lambda>x. x \<le> v) xs)"
    using length_filter_mset [OF ms, of "\<lambda>x. x \<le> v"] k len by simp
  with mem lt show ?thesis
    unfolding order_statistic_def v_def s_def by simp
qed

lemma order_statistic_unique:
  assumes "order_statistic xs k v" and "order_statistic xs k w"
  shows "v = w"
proof (rule ccontr)
  assume ne: "v \<noteq> w"
  have aux: False if a: "order_statistic xs k a" and b: "order_statistic xs k b" and "a < b" for a b
  proof -
    have "length (filter (\<lambda>x. x \<le> a) xs) \<le> length (filter (\<lambda>x. x < b) xs)"
    proof -
      have "filter (\<lambda>x. x \<le> a) xs = filter (\<lambda>x. x \<le> a) (filter (\<lambda>x. x < b) xs)"
        using \<open>a < b\<close> by (auto intro!: filter_cong simp: )
      then show ?thesis by (metis length_filter_le)
    qed
    with a b show False unfolding order_statistic_def by linarith
  qed
  from ne have "v < w \<or> w < v" by auto
  with aux assms show False by blast
qed

lemma median_is_median:
  assumes "xs \<noteq> []"
  shows "is_median xs (median xs)"
proof -
  define n where "n = length xs"
  have n: "0 < n" using assms by (simp add: n_def)
  have l1: "(n - 1) div 2 < length xs" and l2: "n div 2 < length xs"
    using n unfolding n_def by presburger+
  define a where "a = sort xs ! ((n - 1) div 2)"
  define b where "b = sort xs ! (n div 2)"
  have oa: "order_statistic xs ((n - 1) div 2) a"
    unfolding a_def by (rule order_statistic_sort [OF l1])
  have ob: "order_statistic xs (n div 2) b"
    unfolding b_def by (rule order_statistic_sort [OF l2])
  have m: "median xs = (rat_of_int a + rat_of_int b) / 2"
  proof (cases "n mod 2 = 1")
    case True
    then have e: "(n - 1) div 2 = n div 2" by presburger
    have "median xs = rat_of_int (sort xs ! (n div 2))"
      using True by (simp add: median_def Let_def n_def)
    moreover have "a = b" unfolding a_def b_def e ..
    ultimately show ?thesis by (simp add: b_def)
  next
    case False
    with n have e: "(n - 1) div 2 = n div 2 - 1" by presburger
    have "median xs
            = (rat_of_int (sort xs ! (n div 2 - 1)) + rat_of_int (sort xs ! (n div 2))) / 2"
      using False by (simp add: median_def Let_def n_def)
    then show ?thesis unfolding a_def b_def e .
  qed
  from oa ob have "a \<in> set xs" "b \<in> set xs" by (simp_all add: order_statistic_def)
  with oa ob m show ?thesis unfolding is_median_def n_def by blast
qed

lemma is_median_unique:
  assumes "is_median xs m" and "is_median xs m'"
  shows "m = m'"
  using assms unfolding is_median_def
  by (metis order_statistic_unique)

lemma is_median_median:
  assumes "xs \<noteq> []" and "is_median xs m"
  shows "median xs = m"
  by (rule is_median_unique [OF median_is_median [OF assms(1)] assms(2)])

lemma split_columns_overlapping:
  "split_columns overlapping_layout
     = Inr (Some (800, [[90, 600, 100, 800], [0, 0, 420, 300], [10, 300, 420, 600]],
                       [[350, 0, 700, 300], [350, 300, 710, 600], [985, 600, 995, 800]]))"
  by code_simp

lemma split_columns_shuffled:
  "split_columns shuffled_layout
     = Inr (Some (800, take 2 example_boxes, drop 2 example_boxes))"
  by code_simp

lemma sorted_boxes_by_cx_sorted: "sorted (map cx (sorted_boxes_by_cx ns))"
  by (simp add: sorted_boxes_by_cx_def)

lemma sorted_boxes_by_cx_mset: "mset (map bbox (sorted_boxes_by_cx ns)) = mset ns"
proof -
  have "mset (map bbox (sorted_boxes_by_cx ns)) = image_mset bbox (mset (centered_boxes ns))"
    by (simp add: sorted_boxes_by_cx_def)
  also have "\<dots> = mset (map bbox (centered_boxes ns))" by simp
  also have "map bbox (centered_boxes ns) = ns"
    by (simp add: centered_boxes_def comp_def)
  finally show ?thesis .
qed

lemma sorted_boxes_by_cx_center:
  assumes "c \<in> set (sorted_boxes_by_cx ns)"
  shows "cx c = (rat_of_int (bbox c ! 0) + rat_of_int (bbox c ! 2)) / 2"
  using assms by (auto simp: sorted_boxes_by_cx_def centered_boxes_def)

lemma potential_gutters_iff:
  "g \<in> set (potential_gutters x0 w srt)
     \<longleftrightarrow> (\<exists>i. i + 1 < length srt \<and> gutter_at x0 w srt i = Some g)"
proof -
  have "g \<in> set (potential_gutters x0 w srt)
          \<longleftrightarrow> (\<exists>i. i < length srt - 1 \<and> gutter_at x0 w srt i = Some g)"
    by (force simp: potential_gutters_def List.map_filter_def)
  moreover have "i < length srt - 1 \<longleftrightarrow> i + 1 < length srt" for i
    by linarith
  ultimately show ?thesis by simp
qed

lemma gutter_at_Some:
  "gutter_at x0 w srt i = Some g \<longleftrightarrow>
     (rat_of_int x0 + rat_of_int w * (1 / 4) \<le> (cx (srt ! i) + cx (srt ! (i + 1))) / 2
      \<and> (cx (srt ! i) + cx (srt ! (i + 1))) / 2 \<le> rat_of_int x0 + rat_of_int w * (3 / 4)
      \<and> 0 < cx (srt ! (i + 1)) - cx (srt ! i))
     \<and> g = \<lparr>gutter_x_candidate = (cx (srt ! i) + cx (srt ! (i + 1))) / 2,
             gap_width_centers = cx (srt ! (i + 1)) - cx (srt ! i),
             split_index = i\<rparr>"
  by (auto simp: gutter_at_def Let_def GUTTER_SEARCH_RANGE_LAYOUT_RATIO_def)

lemma sort_map_minus:
  fixes xs :: "'a::linordered_ab_group_add list"
  shows "sort (map (\<lambda>v. s - v) xs) = rev (map (\<lambda>v. s - v) (sort xs))"
proof (rule properties_for_sort)
  show "mset (rev (map (\<lambda>v. s - v) (sort xs))) = mset (map (\<lambda>v. s - v) xs)"
    by simp
  have "sorted_wrt (\<lambda>x y. s - y \<le> s - x) (sort xs)"
    by (rule sorted_wrt_mono_rel [of _ "(\<le>)"]) simp_all
  then show "sorted (rev (map (\<lambda>v. s - v) (sort xs)))"
    by (simp add: sorted_wrt_rev sorted_wrt_map)
qed

lemma median_mset: "mset xs = mset ys \<Longrightarrow> median xs = median ys"
proof -
  assume "mset xs = mset ys"
  then have "sort xs = sort ys"
    by (metis mset_sort properties_for_sort sorted_sort)
  then show ?thesis by (simp add: median_def)
qed

lemma median_map_minus:
  assumes "xs \<noteq> []"
  shows "median (map (\<lambda>v. s - v) xs) = rat_of_int s - median xs"
proof -
  define t where "t = sort xs"
  define n where "n = length t"
  have n: "0 < n" "length xs = n" using assms by (simp_all add: n_def t_def)
  have srt: "sort (map (\<lambda>v. s - v) xs) = rev (map (\<lambda>v. s - v) t)"
    unfolding t_def by (rule sort_map_minus)
  have nth: "rev (map (\<lambda>v. s - v) t) ! k = s - t ! (n - 1 - k)" if "k < n" for k
    using that by (simp add: rev_nth n_def)
  let ?r = "rev (map (\<lambda>v. s - v) t)"
  show ?thesis
  proof (cases "n mod 2 = 1")
    case True
    then have i: "n - 1 - n div 2 = n div 2" by presburger
    have l: "n div 2 < n" using n by simp
    have a: "?r ! (n div 2) = s - t ! (n div 2)" using nth [OF l] i by simp
    have L: "median (map (\<lambda>v. s - v) xs) = rat_of_int (?r ! (n div 2))"
      using True by (simp add: median_def srt Let_def n_def)
    have R: "median xs = rat_of_int (t ! (n div 2))"
      using True by (simp add: median_def Let_def t_def n_def)
    show ?thesis by (simp add: L R a)
  next
    case False
    then have e: "n mod 2 = 0" by presburger
    with n have "2 \<le> n" by presburger
    with e have i1: "n - 1 - (n div 2 - 1) = n div 2" and i2: "n - 1 - n div 2 = n div 2 - 1"
      and l1: "n div 2 - 1 < n" and l2: "n div 2 < n"
      by presburger+
    have a: "?r ! (n div 2 - 1) = s - t ! (n div 2)" using nth [OF l1] i1 by simp
    have b: "?r ! (n div 2) = s - t ! (n div 2 - 1)" using nth [OF l2] i2 by simp
    have L: "median (map (\<lambda>v. s - v) xs)
               = (rat_of_int (?r ! (n div 2 - 1)) + rat_of_int (?r ! (n div 2))) / 2"
      using False by (simp add: median_def srt Let_def n_def)
    have R: "median xs = (rat_of_int (t ! (n div 2 - 1)) + rat_of_int (t ! (n div 2))) / 2"
      using False by (simp add: median_def Let_def t_def n_def)
    show ?thesis unfolding L R a b by (simp add: field_simps)
  qed
qed

lemma sorted_take_filter:
  fixes f :: "'a \<Rightarrow> rat"
  assumes srt: "sorted (map f A)" and k: "k + 1 < length A"
      and lt: "f (A ! k) < f (A ! (k + 1))"
    shows "mset (take (k + 1) A) = filter_mset (\<lambda>a. f a \<le> f (A ! k)) (mset A)"
      and "mset (drop (k + 1) A) = filter_mset (\<lambda>a. f (A ! (k + 1)) \<le> f a) (mset A)"
proof -
  let ?P = "\<lambda>a. f a \<le> f (A ! k)"
  let ?Q = "\<lambda>a. f (A ! (k + 1)) \<le> f a"
  let ?T = "mset (take (k + 1) A)"
  let ?D = "mset (drop (k + 1) A)"
  have mono: "f (A ! i) \<le> f (A ! j)" if "i \<le> j" "j < length A" for i j
  proof -
    have "map f A ! i \<le> map f A ! j"
      using srt that by (intro sorted_nth_mono) simp_all
    then show ?thesis using that by simp
  qed
  have lo: "?P a" if "a \<in> set (take (k + 1) A)" for a
  proof -
    from that obtain i where "i < k + 1" "i < length A" "a = A ! i"
      by (auto simp: in_set_conv_nth)
    then show ?thesis using mono [of i k] k by simp
  qed
  have hi: "?Q a" if "a \<in> set (drop (k + 1) A)" for a
  proof -
    from that obtain i where "i < length A - (k + 1)" "a = A ! (k + 1 + i)"
      by (auto simp: in_set_conv_nth)
    then show ?thesis using mono [of "k + 1" "k + 1 + i"] by simp
  qed
  have nlo: "\<not> ?P a" if "a \<in> set (drop (k + 1) A)" for a
    using hi [OF that] lt by simp
  have nhi: "\<not> ?Q a" if "a \<in> set (take (k + 1) A)" for a
    using lo [OF that] lt by simp
  have A: "mset A = ?T + ?D"
    by (metis append_take_drop_id mset_append)
  have 1: "filter_mset ?P ?T = ?T" using lo by (simp add: filter_mset_eq_conv)
  have 2: "filter_mset ?P ?D = {#}" using nlo by simp
  have 3: "filter_mset ?Q ?T = {#}" using nhi by simp
  have 4: "filter_mset ?Q ?D = ?D" using hi by (simp add: filter_mset_eq_conv)
  have "filter_mset ?P (mset A) = filter_mset ?P ?T + filter_mset ?P ?D"
    by (metis A filter_union_mset)
  then show "?T = filter_mset ?P (mset A)" by (simp only: 1 2 add_0_right)
  have "filter_mset ?Q (mset A) = filter_mset ?Q ?T + filter_mset ?Q ?D"
    by (metis A filter_union_mset)
  then show "?D = filter_mset ?Q (mset A)" by (simp only: 3 4 add_0_left)
qed

lemma unpack4_Inr: "unpack4 b = Inr q \<longleftrightarrow> (\<exists>x0 y0 x1 y1. b = [x0, y0, x1, y1] \<and> q = (x0, y0, x1, y1))"
  by (cases b rule: unpack4.cases) auto

lemma mirror_box_four [simp]: "mirror_box s [x0, y0, x1, y1] = [s - x1, y0, s - x0, y1]"
  by (simp add: mirror_box_def)

lemma mirror_box_other: "unpack4 b = Inl e \<Longrightarrow> mirror_box s b = b"
  by (simp add: mirror_box_def)

lemma is_likely_spanning_box_mirror:
  "is_likely_spanning_box (mirror_box s b) lb = is_likely_spanning_box b lb"
proof (cases "unpack4 b")
  case (Inl e)
  then show ?thesis by (simp add: mirror_box_other)
next
  case (Inr q)
  then obtain x0 y0 x1 y1 where b: "b = [x0, y0, x1, y1]" by (auto simp: unpack4_Inr)
  have w: "s - x0 - (s - x1) = x1 - x0" by simp
  show ?thesis unfolding b
    by (cases "unpack4 lb") (auto simp: is_likely_spanning_box_def w)
qed

lemma non_spanning_boxes_mirror:
  "non_spanning_boxes (map (mirror_box s) bs) lb
     = (case non_spanning_boxes bs lb of Inl e \<Rightarrow> Inl e | Inr ns \<Rightarrow> Inr (map (mirror_box s) ns))"
  by (induction bs) (auto simp: is_likely_spanning_box_mirror split: sum.splits)

lemma non_spanning_boxes_four:
  assumes "non_spanning_boxes bs lb = Inr ns" and "b \<in> set ns"
  shows "\<exists>x0 y0 x1 y1. b = [x0, y0, x1, y1]"
  using assms
proof (induction bs arbitrary: ns)
  case Nil
  then show ?case by simp
next
  case (Cons a bs)
  from Cons.prems(1) obtain sp rest where
    sp: "is_likely_spanning_box a lb = Inr sp" and rest: "non_spanning_boxes bs lb = Inr rest"
    and ns: "ns = (if sp then rest else a # rest)"
    by (auto split: sum.splits)
  from sp obtain q where "unpack4 a = Inr q"
    by (auto simp: is_likely_spanning_box_def split: sum.splits)
  then have a: "\<exists>x0 y0 x1 y1. a = [x0, y0, x1, y1]" by (auto simp: unpack4_Inr)
  show ?case
  proof (cases "b = a")
    case True
    with a show ?thesis by simp
  next
    case False
    with Cons.prems(2) ns have "b \<in> set rest" by (auto split: if_splits)
    with Cons.IH [OF rest] show ?thesis .
  qed
qed

lemma best_gutter_maximal:
  "max_key f g gs \<in> set (g # gs) \<and> (\<forall>k \<in> set (g # gs). f k \<le> f (max_key f g gs))"
proof -
  from max_key_first [of g gs f] obtain ys zs where
    dec: "g # gs = ys @ max_key f g gs # zs"
    and lt: "\<forall>y \<in> set ys. f y < f (max_key f g gs)"
    and le: "\<forall>z \<in> set zs. f z \<le> f (max_key f g gs)"
    by blast
  have mem: "max_key f g gs \<in> set (g # gs)" unfolding dec by simp
  have "f k \<le> f (max_key f g gs)" if "k \<in> set (g # gs)" for k
  proof -
    from that have "k \<in> set ys \<or> k = max_key f g gs \<or> k \<in> set zs" unfolding dec by auto
    with lt le show ?thesis by (auto simp: less_imp_le)
  qed
  with mem show ?thesis by blast
qed

lemma gutter_at_mirror:
  fixes x0 x1 :: int
  assumes len: "length srt' = length srt"
      and cs: "map cx srt' = rev (map (\<lambda>v. rat_of_int (x0 + x1) - v) (map cx srt))"
      and j: "j + 1 < length srt"
    shows "(\<exists>g'. gutter_at x0 (x1 - x0) srt' j = Some g' \<and> gap_width_centers g' = d)
           \<longleftrightarrow> (\<exists>g. gutter_at x0 (x1 - x0) srt (length srt - 2 - j) = Some g
                    \<and> gap_width_centers g = d)"
proof -
  define n where "n = length srt"
  define i where "i = n - 2 - j"
  have i: "n - 1 - j = i + 1" "n - 1 - (j + 1) = i"
    using j by (simp_all add: i_def n_def)
  have nth: "cx (srt' ! k) = rat_of_int (x0 + x1) - cx (srt ! (n - 1 - k))" if "k < n" for k
  proof -
    have "cx (srt' ! k) = map cx srt' ! k" using that len by (simp add: n_def)
    also have "\<dots> = rev (map (\<lambda>v. rat_of_int (x0 + x1) - v) (map cx srt)) ! k"
      by (simp only: cs)
    also have "\<dots> = rat_of_int (x0 + x1) - cx (srt ! (n - 1 - k))"
      using that by (simp add: rev_nth n_def)
    finally show ?thesis .
  qed
  define p where "p = cx (srt ! i)"
  define q where "q = cx (srt ! (i + 1))"
  have a: "cx (srt' ! j) = rat_of_int x0 + rat_of_int x1 - q"
    using nth [of j] i j by (simp add: n_def q_def)
  have b: "cx (srt' ! (j + 1)) = rat_of_int x0 + rat_of_int x1 - p"
    using nth [of "j + 1"] i j by (simp add: n_def p_def)
  have L: "(\<exists>g'. gutter_at x0 (x1 - x0) srt' j = Some g' \<and> gap_width_centers g' = d)
        \<longleftrightarrow> (rat_of_int x0 + rat_of_int (x1 - x0) * (1 / 4) \<le> (cx (srt' ! j) + cx (srt' ! (j + 1))) / 2
      \<and> (cx (srt' ! j) + cx (srt' ! (j + 1))) / 2 \<le> rat_of_int x0 + rat_of_int (x1 - x0) * (3 / 4)
      \<and> 0 < cx (srt' ! (j + 1)) - cx (srt' ! j)) \<and> cx (srt' ! (j + 1)) - cx (srt' ! j) = d"
    unfolding gutter_at_Some by auto
  have R: "(\<exists>g. gutter_at x0 (x1 - x0) srt i = Some g \<and> gap_width_centers g = d)
        \<longleftrightarrow> (rat_of_int x0 + rat_of_int (x1 - x0) * (1 / 4) \<le> (p + q) / 2
      \<and> (p + q) / 2 \<le> rat_of_int x0 + rat_of_int (x1 - x0) * (3 / 4)
      \<and> 0 < q - p) \<and> q - p = d"
    unfolding gutter_at_Some p_def q_def by auto
  have idx: "length srt - 2 - j = i" by (simp add: i_def n_def)
  show ?thesis unfolding idx L R a b by (auto simp: field_simps)
qed

lemma potential_gutters_mirror_empty:
  fixes x0 x1 :: int
  assumes len: "length srt' = length srt"
      and cs: "map cx srt' = rev (map (\<lambda>v. rat_of_int (x0 + x1) - v) (map cx srt))"
    shows "potential_gutters x0 (x1 - x0) srt' = [] \<longleftrightarrow> potential_gutters x0 (x1 - x0) srt = []"
proof -
  have 1: "\<exists>g. g \<in> set (potential_gutters x0 (x1 - x0) srt)"
    if "g' \<in> set (potential_gutters x0 (x1 - x0) srt')" for g'
  proof -
    from that obtain j where j: "j + 1 < length srt"
      and g': "gutter_at x0 (x1 - x0) srt' j = Some g'"
      unfolding potential_gutters_iff len by blast
    from j have i: "length srt - 2 - j + 1 < length srt" by linarith
    from g' have "\<exists>k. gutter_at x0 (x1 - x0) srt' j = Some k
                    \<and> gap_width_centers k = gap_width_centers g'" by simp
    then have "\<exists>g. gutter_at x0 (x1 - x0) srt (length srt - 2 - j) = Some g
                    \<and> gap_width_centers g = gap_width_centers g'"
      by (simp only: gutter_at_mirror [OF len cs j])
    then obtain g where "gutter_at x0 (x1 - x0) srt (length srt - 2 - j) = Some g"
      by blast
    with i show ?thesis unfolding potential_gutters_iff by blast
  qed
  have 2: "\<exists>g'. g' \<in> set (potential_gutters x0 (x1 - x0) srt')"
    if "g \<in> set (potential_gutters x0 (x1 - x0) srt)" for g
  proof -
    from that obtain i where i: "i + 1 < length srt"
      and g: "gutter_at x0 (x1 - x0) srt i = Some g"
      unfolding potential_gutters_iff by blast
    define j where "j = length srt - 2 - i"
    from i have j: "j + 1 < length srt" and ij: "length srt - 2 - j = i"
      unfolding j_def by linarith+
    from g have "\<exists>k. gutter_at x0 (x1 - x0) srt (length srt - 2 - j) = Some k
                    \<and> gap_width_centers k = gap_width_centers g" unfolding ij by simp
    then have "\<exists>k. gutter_at x0 (x1 - x0) srt' j = Some k
                    \<and> gap_width_centers k = gap_width_centers g"
      by (simp only: gutter_at_mirror [OF len cs j])
    then obtain g' where "gutter_at x0 (x1 - x0) srt' j = Some g'"
      by blast
    with j show ?thesis unfolding potential_gutters_iff len by blast
  qed
  let ?A = "potential_gutters x0 (x1 - x0) srt"
  let ?A' = "potential_gutters x0 (x1 - x0) srt'"
  show ?thesis
  proof
    assume e: "?A' = []"
    show "?A = []"
    proof (cases ?A)
      case Nil
      then show ?thesis .
    next
      case (Cons g gs)
      then have "g \<in> set ?A" by simp
      from 2 [OF this] obtain g' where "g' \<in> set ?A'" ..
      with e show ?thesis by simp
    qed
  next
    assume e: "?A = []"
    show "?A' = []"
    proof (cases ?A')
      case Nil
      then show ?thesis .
    next
      case (Cons g' gs')
      then have "g' \<in> set ?A'" by simp
      from 1 [OF this] obtain g where "g \<in> set ?A" ..
      with e show ?thesis by simp
    qed
  qed
qed

lemma mirror_split_index:
  fixes x0 x1 :: int
  assumes len: "length srt' = length srt"
      and cs: "map cx srt' = rev (map (\<lambda>v. rat_of_int (x0 + x1) - v) (map cx srt))"
      and pg: "potential_gutters x0 (x1 - x0) srt = g # gs"
      and pg': "potential_gutters x0 (x1 - x0) srt' = g' # gs'"
      and uniq: "unique_widest (g # gs)"
      and best: "best = max_key gap_width_centers g gs"
      and best': "best' = max_key gap_width_centers g' gs'"
    shows "split_index best' + 1 < length srt"
      and "split_index best = length srt - 2 - split_index best'"
      and "gutter_at x0 (x1 - x0) srt (split_index best) = Some best"
      and "gutter_at x0 (x1 - x0) srt' (split_index best') = Some best'"
proof -
  let ?w = gap_width_centers
  from best_gutter_maximal [of ?w g gs]
  have bm: "best \<in> set (g # gs)" and bmax: "\<And>k. k \<in> set (g # gs) \<Longrightarrow> ?w k \<le> ?w best"
    unfolding best by blast+
  from best_gutter_maximal [of ?w g' gs']
  have bm': "best' \<in> set (g' # gs')" and bmax': "\<And>k. k \<in> set (g' # gs') \<Longrightarrow> ?w k \<le> ?w best'"
    unfolding best' by blast+
  from bm' obtain j where j: "j + 1 < length srt"
    and gj: "gutter_at x0 (x1 - x0) srt' j = Some best'"
    unfolding pg' [symmetric] potential_gutters_iff len by blast
  from gj have sj: "split_index best' = j" unfolding gutter_at_Some by simp
  from j have i: "length srt - 2 - j + 1 < length srt" by linarith
  from gj have "\<exists>k. gutter_at x0 (x1 - x0) srt' j = Some k \<and> ?w k = ?w best'" by simp
  then have "\<exists>k. gutter_at x0 (x1 - x0) srt (length srt - 2 - j) = Some k \<and> ?w k = ?w best'"
    by (simp only: gutter_at_mirror [OF len cs j])
  then obtain h where h: "gutter_at x0 (x1 - x0) srt (length srt - 2 - j) = Some h"
    and wh: "?w h = ?w best'"
    by blast
  from h i have hm: "h \<in> set (g # gs)" unfolding pg [symmetric] potential_gutters_iff by blast
  have hmax: "?w k \<le> ?w h" if "k \<in> set (g # gs)" for k
  proof -
    from that obtain i where i: "i + 1 < length srt"
      and g: "gutter_at x0 (x1 - x0) srt i = Some k"
      unfolding pg [symmetric] potential_gutters_iff by blast
    define j where "j = length srt - 2 - i"
    from i have j: "j + 1 < length srt" and ij: "length srt - 2 - j = i"
      unfolding j_def by linarith+
    from g have "\<exists>g. gutter_at x0 (x1 - x0) srt (length srt - 2 - j) = Some g
                    \<and> ?w g = ?w k" unfolding ij by simp
    then have "\<exists>g. gutter_at x0 (x1 - x0) srt' j = Some g \<and> ?w g = ?w k"
      by (simp only: gutter_at_mirror [OF len cs j])
    then obtain k' where "gutter_at x0 (x1 - x0) srt' j = Some k'" and "?w k' = ?w k"
      by blast
    with j have "k' \<in> set (g' # gs')" "?w k' = ?w k"
      unfolding pg' [symmetric] potential_gutters_iff len by blast+
    with bmax' [of k'] wh show ?thesis by simp
  qed
  have "?w best = ?w h" using bmax [OF hm] hmax [OF bm] by simp
  with uniq hm bm hmax have "best = h" unfolding unique_widest_def by blast
  with h have hb: "gutter_at x0 (x1 - x0) srt (length srt - 2 - j) = Some best" by simp
  then have sb: "split_index best = length srt - 2 - j" unfolding gutter_at_Some by simp
  show "split_index best' + 1 < length srt" using j sj by simp
  show "split_index best = length srt - 2 - split_index best'" using sb sj by simp
  show "gutter_at x0 (x1 - x0) srt (split_index best) = Some best" using hb sb by simp
  show "gutter_at x0 (x1 - x0) srt' (split_index best') = Some best'" using gj sj by simp
qed

lemma image_filter_image_mset:
  assumes "\<And>x. g (f x) = x"
  shows "image_mset g (filter_mset P (image_mset f M)) = filter_mset (\<lambda>x. P (f x)) M"
  by (induction M) (simp_all add: assms)

lemma mset_sorted_boxes_by_cx:
  "mset (sorted_boxes_by_cx ns)
     = image_mset (\<lambda>b. \<lparr>cx = (rat_of_int (b ! 0) + rat_of_int (b ! 2)) / 2, bbox = b\<rparr>) (mset ns)"
  by (simp add: sorted_boxes_by_cx_def centered_boxes_def)

lemma length_sorted_boxes_by_cx: "length (sorted_boxes_by_cx ns) = length ns"
  by (simp add: sorted_boxes_by_cx_def centered_boxes_def)

lemma columns_mset:
  assumes srt: "srt = sorted_boxes_by_cx ns"
      and i: "i + 1 < length ns"
      and lt: "cx (srt ! i) < cx (srt ! (i + 1))"
    shows "mset (map bbox (take (i + 1) srt))
             = filter_mset (\<lambda>b. (rat_of_int (b ! 0) + rat_of_int (b ! 2)) / 2 \<le> cx (srt ! i)) (mset ns)"
      and "mset (map bbox (drop (i + 1) srt))
             = filter_mset (\<lambda>b. cx (srt ! (i + 1)) \<le> (rat_of_int (b ! 0) + rat_of_int (b ! 2)) / 2) (mset ns)"
proof -
  let ?mk = "\<lambda>b. \<lparr>cx = (rat_of_int (b ! 0) + rat_of_int (b ! 2)) / 2, bbox = b\<rparr>"
  have s: "sorted (map cx srt)" unfolding srt by (rule sorted_boxes_by_cx_sorted)
  have l: "i + 1 < length srt" using i unfolding srt length_sorted_boxes_by_cx .
  have m: "mset srt = image_mset ?mk (mset ns)" unfolding srt by (rule mset_sorted_boxes_by_cx)
  have inv: "bbox (?mk b) = b" for b by simp
  have "mset (map bbox (take (i + 1) srt)) = image_mset bbox (mset (take (i + 1) srt))" by simp
  also have "\<dots> = image_mset bbox (filter_mset (\<lambda>a. cx a \<le> cx (srt ! i)) (image_mset ?mk (mset ns)))"
    unfolding sorted_take_filter(1) [OF s l lt] m ..
  also have "\<dots> = filter_mset (\<lambda>b. cx (?mk b) \<le> cx (srt ! i)) (mset ns)"
    by (rule image_filter_image_mset) simp
  finally show "mset (map bbox (take (i + 1) srt))
             = filter_mset (\<lambda>b. (rat_of_int (b ! 0) + rat_of_int (b ! 2)) / 2 \<le> cx (srt ! i)) (mset ns)"
    by simp
  have "mset (map bbox (drop (i + 1) srt)) = image_mset bbox (mset (drop (i + 1) srt))" by simp
  also have "\<dots> = image_mset bbox (filter_mset (\<lambda>a. cx (srt ! (i + 1)) \<le> cx a) (image_mset ?mk (mset ns)))"
    unfolding sorted_take_filter(2) [OF s l lt] m ..
  also have "\<dots> = filter_mset (\<lambda>b. cx (srt ! (i + 1)) \<le> cx (?mk b)) (mset ns)"
    by (rule image_filter_image_mset) simp
  finally show "mset (map bbox (drop (i + 1) srt))
             = filter_mset (\<lambda>b. cx (srt ! (i + 1)) \<le> (rat_of_int (b ! 0) + rat_of_int (b ! 2)) / 2) (mset ns)"
    by simp
qed

lemma map_cx_sorted_boxes_by_cx:
  "map cx (sorted_boxes_by_cx ns)
     = sort (map (\<lambda>b. (rat_of_int (b ! 0) + rat_of_int (b ! 2)) / 2) ns)"
proof (rule properties_for_sort [symmetric])
  show "mset (map cx (sorted_boxes_by_cx ns))
          = mset (map (\<lambda>b. (rat_of_int (b ! 0) + rat_of_int (b ! 2)) / 2) ns)"
    by (simp add: mset_sorted_boxes_by_cx multiset.map_comp comp_def)
  show "sorted (map cx (sorted_boxes_by_cx ns))" by (rule sorted_boxes_by_cx_sorted)
qed

lemma center_mirror_box:
  assumes "\<exists>x0 y0 x1 y1. b = [x0, y0, x1, y1]"
  shows "(rat_of_int (mirror_box s b ! 0) + rat_of_int (mirror_box s b ! 2)) / 2
           = rat_of_int s - (rat_of_int (b ! 0) + rat_of_int (b ! 2)) / 2"
proof -
  from assms obtain x0 y0 x1 y1 where b: "b = [x0, y0, x1, y1]" by blast
  show ?thesis unfolding b by (simp add: field_simps)
qed

lemma mirror_centers:
  assumes four: "\<forall>b \<in> set ns. \<exists>x0 y0 x1 y1. b = [x0, y0, x1, y1]"
  shows "map cx (sorted_boxes_by_cx (map (mirror_box s) ns))
           = rev (map (\<lambda>v. rat_of_int s - v) (map cx (sorted_boxes_by_cx ns)))"
proof -
  let ?c = "\<lambda>b. (rat_of_int (b ! 0) + rat_of_int (b ! 2)) / 2"
  have "map ?c (map (mirror_box s) ns) = map (\<lambda>v. rat_of_int s - v) (map ?c ns)"
    using four by (simp add: center_mirror_box)
  then show ?thesis
    unfolding map_cx_sorted_boxes_by_cx by (simp only: sort_map_minus)
qed

lemma mirror_cx_nth:
  assumes len: "length srt' = length srt"
      and cs: "map cx srt' = rev (map (\<lambda>v. s - v) (map cx srt))"
      and k: "k < length srt"
    shows "cx (srt' ! k) = s - cx (srt ! (length srt - 1 - k))"
proof -
  have "cx (srt' ! k) = map cx srt' ! k" using k len by simp
  also have "\<dots> = rev (map (\<lambda>v. s - v) (map cx srt)) ! k"
    by (simp only: cs)
  also have "\<dots> = s - cx (srt ! (length srt - 1 - k))"
    using k by (simp add: rev_nth)
  finally show ?thesis .
qed

lemma filter_image_mset_conv:
  "filter_mset P (image_mset f M) = image_mset f (filter_mset (\<lambda>x. P (f x)) M)"
  by (induction M) simp_all

lemma mirror_columns:
  fixes x0 x1 :: int
  assumes four: "\<forall>b \<in> set ns. \<exists>x0 y0 x1 y1. b = [x0, y0, x1, y1]"
      and srt: "srt = sorted_boxes_by_cx ns"
      and srt': "srt' = sorted_boxes_by_cx (map (mirror_box (x0 + x1)) ns)"
      and pg: "potential_gutters x0 (x1 - x0) srt = g # gs"
      and pg': "potential_gutters x0 (x1 - x0) srt' = g' # gs'"
      and uniq: "unique_widest (g # gs)"
      and i: "i = split_index (max_key gap_width_centers g gs)"
      and j: "j = split_index (max_key gap_width_centers g' gs')"
    shows "mset (map bbox (take (j + 1) srt'))
             = image_mset (mirror_box (x0 + x1)) (mset (map bbox (drop (i + 1) srt)))"
      and "mset (map bbox (drop (j + 1) srt'))
             = image_mset (mirror_box (x0 + x1)) (mset (map bbox (take (i + 1) srt)))"
proof -
  let ?m = "mirror_box (x0 + x1)"
  let ?c = "\<lambda>b. (rat_of_int (b ! 0) + rat_of_int (b ! 2)) / 2"
  let ?S = "rat_of_int (x0 + x1)"
  have len: "length srt' = length srt" unfolding srt srt' by (simp add: length_sorted_boxes_by_cx)
  have n: "length srt = length ns" unfolding srt by (rule length_sorted_boxes_by_cx)
  have cs: "map cx srt' = rev (map (\<lambda>v. ?S - v) (map cx srt))"
    unfolding srt srt' by (rule mirror_centers [OF four])
  note msi = mirror_split_index [OF len cs pg pg' uniq refl refl, folded i j]
  from msi(1) have jn: "j + 1 < length srt" .
  from msi(2) jn have ij: "i = length srt - 2 - j" and i_n: "i + 1 < length srt" by linarith+
  from msi(3) have gap: "cx (srt ! i) < cx (srt ! (i + 1))" unfolding gutter_at_Some by simp
  from msi(4) have gap': "cx (srt' ! j) < cx (srt' ! (j + 1))" unfolding gutter_at_Some by simp
  have "length srt - 1 - j = i + 1" using ij jn by linarith
  with mirror_cx_nth [OF len cs, of j] jn
  have cj: "cx (srt' ! j) = ?S - cx (srt ! (i + 1))" by simp
  have "length srt - 1 - (j + 1) = i" using ij jn by linarith
  with mirror_cx_nth [OF len cs, of "j + 1"] jn
  have cj1: "cx (srt' ! (j + 1)) = ?S - cx (srt ! i)" by simp
  have cm: "?c (?m b) = ?S - ?c b" if "b \<in># mset ns" for b
    using that four by (simp add: center_mirror_box)
  have jn': "j + 1 < length (map ?m ns)" using jn n by simp
  have in': "i + 1 < length ns" using i_n n by simp
  have "mset (map bbox (take (j + 1) srt'))
          = filter_mset (\<lambda>b. ?c b \<le> cx (srt' ! j)) (image_mset ?m (mset ns))"
    using columns_mset(1) [OF srt' jn' gap'] by simp
  also have "\<dots> = image_mset ?m (filter_mset (\<lambda>b. ?c (?m b) \<le> cx (srt' ! j)) (mset ns))"
    by (rule filter_image_mset_conv)
  also have "filter_mset (\<lambda>b. ?c (?m b) \<le> cx (srt' ! j)) (mset ns)
               = filter_mset (\<lambda>b. cx (srt ! (i + 1)) \<le> ?c b) (mset ns)"
    by (rule filter_mset_cong [OF refl]) (simp only: cm cj, simp)
  also have "\<dots> = mset (map bbox (drop (i + 1) srt))"
    using columns_mset(2) [OF srt in' gap] by simp
  finally show "mset (map bbox (take (j + 1) srt'))
             = image_mset ?m (mset (map bbox (drop (i + 1) srt)))" .
  have "mset (map bbox (drop (j + 1) srt'))
          = filter_mset (\<lambda>b. cx (srt' ! (j + 1)) \<le> ?c b) (image_mset ?m (mset ns))"
    using columns_mset(2) [OF srt' jn' gap'] by simp
  also have "\<dots> = image_mset ?m (filter_mset (\<lambda>b. cx (srt' ! (j + 1)) \<le> ?c (?m b)) (mset ns))"
    by (rule filter_image_mset_conv)
  also have "filter_mset (\<lambda>b. cx (srt' ! (j + 1)) \<le> ?c (?m b)) (mset ns)
               = filter_mset (\<lambda>b. ?c b \<le> cx (srt ! i)) (mset ns)"
    by (rule filter_mset_cong [OF refl]) (simp only: cm cj1, simp)
  also have "\<dots> = mset (map bbox (take (i + 1) srt))"
    using columns_mset(1) [OF srt in' gap] by simp
  finally show "mset (map bbox (drop (j + 1) srt'))
             = image_mset ?m (mset (map bbox (take (i + 1) srt)))" .
qed

lemma vertical_cohesion_commute:
  "vertical_cohesion lh R L = vertical_cohesion lh L R"
  by (auto simp: vertical_cohesion_def Let_def min.commute max.commute)

lemma vertical_cohesion_cong:
  assumes "L' = [] \<longleftrightarrow> L = []" "R' = [] \<longleftrightarrow> R = []"
      and "set (map (\<lambda>b. b ! 1) L') = set (map (\<lambda>b. b ! 1) L)"
      and "set (map (\<lambda>b. b ! 3) L') = set (map (\<lambda>b. b ! 3) L)"
      and "set (map (\<lambda>b. b ! 1) R') = set (map (\<lambda>b. b ! 1) R)"
      and "set (map (\<lambda>b. b ! 3) R') = set (map (\<lambda>b. b ! 3) R)"
    shows "vertical_cohesion lh L' R' = vertical_cohesion lh L R"
  unfolding vertical_cohesion_def assms ..

lemma set_map_mirror:
  assumes A: "mset A' = image_mset m (mset A)"
      and k: "\<forall>b \<in> set A. m b ! k = b ! k"
    shows "set (map (\<lambda>b. b ! k) A') = set (map (\<lambda>b. b ! k) A)"
proof -
  have "set A' = set_mset (mset A')" by simp
  also have "\<dots> = m ` set A" unfolding A by simp
  finally have "set (map (\<lambda>b. b ! k) A') = (\<lambda>b. m b ! k) ` set A"
    by (simp add: image_image)
  also have "\<dots> = (\<lambda>b. b ! k) ` set A" using k by (intro image_cong) simp_all
  finally show ?thesis by simp
qed

lemma empty_mirror:
  assumes A: "mset A' = image_mset m (mset A)"
  shows "A' = [] \<longleftrightarrow> A = []"
proof -
  have "mset A' = {#} \<longleftrightarrow> mset A = {#}" unfolding A by simp
  then show ?thesis by simp
qed

lemma length_mirror:
  assumes A: "mset A' = image_mset m (mset A)"
  shows "length A' = length A"
proof -
  have "size (mset A') = size (mset A)" unfolding A by simp
  then show ?thesis by simp
qed

lemma mirror_box_y:
  assumes "\<exists>x0 y0 x1 y1. b = [x0, y0, x1, y1]"
  shows "mirror_box s b ! 1 = b ! 1" and "mirror_box s b ! 3 = b ! 3"
    and "mirror_box s b ! 0 = s - b ! 2" and "mirror_box s b ! 2 = s - b ! 0"
proof -
  from assms obtain x0 y0 x1 y1 where b: "b = [x0, y0, x1, y1]" by blast
  show "mirror_box s b ! 1 = b ! 1" "mirror_box s b ! 3 = b ! 3"
    "mirror_box s b ! 0 = s - b ! 2" "mirror_box s b ! 2 = s - b ! 0"
    unfolding b by (simp_all add: numeral_3_eq_3)
qed

lemma vertical_cohesion_mirror:
  assumes L': "mset L' = image_mset (mirror_box s) (mset R)"
      and R': "mset R' = image_mset (mirror_box s) (mset L)"
      and four: "\<forall>b \<in> set L \<union> set R. \<exists>x0 y0 x1 y1. b = [x0, y0, x1, y1]"
    shows "vertical_cohesion lh L' R' = vertical_cohesion lh L R"
proof -
  have f: "\<exists>x0 y0 x1 y1. b = [x0, y0, x1, y1]" if "b \<in> set L \<union> set R" for b
    using four that by (rule bspec)
  have y1: "\<forall>b \<in> set R. mirror_box s b ! 1 = b ! 1"
    and y3: "\<forall>b \<in> set R. mirror_box s b ! 3 = b ! 3"
    and z1: "\<forall>b \<in> set L. mirror_box s b ! 1 = b ! 1"
    and z3: "\<forall>b \<in> set L. mirror_box s b ! 3 = b ! 3"
    by (intro ballI mirror_box_y(1) mirror_box_y(2) f UnI1 UnI2, assumption)+
  have "vertical_cohesion lh L' R' = vertical_cohesion lh R L"
  proof (rule vertical_cohesion_cong)
    show "L' = [] \<longleftrightarrow> R = []" by (rule empty_mirror [OF L'])
    show "R' = [] \<longleftrightarrow> L = []" by (rule empty_mirror [OF R'])
    show "set (map (\<lambda>b. b ! 1) L') = set (map (\<lambda>b. b ! 1) R)"
      by (rule set_map_mirror [OF L' y1])
    show "set (map (\<lambda>b. b ! 3) L') = set (map (\<lambda>b. b ! 3) R)"
      by (rule set_map_mirror [OF L' y3])
    show "set (map (\<lambda>b. b ! 1) R') = set (map (\<lambda>b. b ! 1) L)"
      by (rule set_map_mirror [OF R' z1])
    show "set (map (\<lambda>b. b ! 3) R') = set (map (\<lambda>b. b ! 3) L)"
      by (rule set_map_mirror [OF R' z3])
  qed
  then show ?thesis by (simp only: vertical_cohesion_commute)
qed

lemma median_mirror:
  assumes A: "mset A' = image_mset (mirror_box s) (mset A)"
      and four: "\<forall>b \<in> set A. \<exists>x0 y0 x1 y1. b = [x0, y0, x1, y1]"
      and ne: "A \<noteq> []"
    shows "median (map (\<lambda>b. b ! 2) A') = rat_of_int s - median (map (\<lambda>b. b ! 0) A)"
      and "median (map (\<lambda>b. b ! 0) A') = rat_of_int s - median (map (\<lambda>b. b ! 2) A)"
proof -
  have f: "\<exists>x0 y0 x1 y1. b = [x0, y0, x1, y1]" if "b \<in># mset A" for b
    using four that by simp
  have x2: "mirror_box s b ! 2 = s - b ! 0" if "b \<in># mset A" for b
    by (rule mirror_box_y(4) [OF f [OF that]])
  have x0: "mirror_box s b ! 0 = s - b ! 2" if "b \<in># mset A" for b
    by (rule mirror_box_y(3) [OF f [OF that]])
  have "mset (map (\<lambda>b. b ! 2) A') = image_mset (\<lambda>b. mirror_box s b ! 2) (mset A)"
    by (simp add: A multiset.map_comp comp_def)
  also have "\<dots> = image_mset (\<lambda>b. s - b ! 0) (mset A)"
    by (intro image_mset_cong) (rule x2)
  also have "\<dots> = mset (map (\<lambda>v. s - v) (map (\<lambda>b. b ! 0) A))"
    by (simp add: multiset.map_comp comp_def)
  finally have "median (map (\<lambda>b. b ! 2) A') = median (map (\<lambda>v. s - v) (map (\<lambda>b. b ! 0) A))"
    by (rule median_mset)
  also have "\<dots> = rat_of_int s - median (map (\<lambda>b. b ! 0) A)"
    using ne by (intro median_map_minus) simp
  finally show "median (map (\<lambda>b. b ! 2) A') = rat_of_int s - median (map (\<lambda>b. b ! 0) A)" .
  have "mset (map (\<lambda>b. b ! 0) A') = image_mset (\<lambda>b. mirror_box s b ! 0) (mset A)"
    by (simp add: A multiset.map_comp comp_def)
  also have "\<dots> = image_mset (\<lambda>b. s - b ! 2) (mset A)"
    by (intro image_mset_cong) (rule x0)
  also have "\<dots> = mset (map (\<lambda>v. s - v) (map (\<lambda>b. b ! 2) A))"
    by (simp add: multiset.map_comp comp_def)
  finally have "median (map (\<lambda>b. b ! 0) A') = median (map (\<lambda>v. s - v) (map (\<lambda>b. b ! 2) A))"
    by (rule median_mset)
  also have "\<dots> = rat_of_int s - median (map (\<lambda>b. b ! 2) A)"
    using ne by (intro median_map_minus) simp
  finally show "median (map (\<lambda>b. b ! 0) A') = rat_of_int s - median (map (\<lambda>b. b ! 2) A)" .
qed

lemma validate_columns_mirror:
  assumes L': "mset L' = image_mset (mirror_box s) (mset R)"
      and R': "mset R' = image_mset (mirror_box s) (mset L)"
      and four: "\<forall>b \<in> set L \<union> set R. \<exists>x0 y0 x1 y1. b = [x0, y0, x1, y1]"
    shows "validate_columns lh L' R' = validate_columns lh L R"
proof -
  have lL: "length L' = length R" by (rule length_mirror [OF L'])
  have lR: "length R' = length L" by (rule length_mirror [OF R'])
  have vc: "vertical_cohesion lh L' R' = vertical_cohesion lh L R"
    by (rule vertical_cohesion_mirror [OF L' R' four])
  show ?thesis
  proof (cases "length L < MIN_BOXES_PER_DETECTED_COLUMN \<or> length R < MIN_BOXES_PER_DETECTED_COLUMN")
    case True
    then show ?thesis unfolding validate_columns_def lL lR by auto
  next
    case False
    then have ne: "L \<noteq> []" "R \<noteq> []"
      by (auto simp: MIN_BOXES_PER_DETECTED_COLUMN_def)
    from four have fL: "\<forall>b \<in> set L. \<exists>x0 y0 x1 y1. b = [x0, y0, x1, y1]"
      and fR: "\<forall>b \<in> set R. \<exists>x0 y0 x1 y1. b = [x0, y0, x1, y1]" by blast+
    have "median_gap L' R' = median_gap L R"
      unfolding median_gap_def Let_def
        median_mirror(1) [OF L' fR ne(2)] median_mirror(2) [OF R' fL ne(1)]
      by simp
    then show ?thesis unfolding validate_columns_def lL lR vc by auto
  qed
qed

lemma split_columns_four:
  assumes "bbox_layout l = Some [x0, y0, x1, y1]" and "bbox_text l = Some tbs"
  shows "split_columns l =
     (if tbs = [] \<or> y1 - y0 < 300 \<or> x1 - x0 < 200 then Inr None
      else case non_spanning_boxes tbs [x0, y0, x1, y1] of
             Inl e \<Rightarrow> Inl e
           | Inr boxes \<Rightarrow>
               if length boxes < 4 then Inr None
               else case potential_gutters x0 (x1 - x0) (sorted_boxes_by_cx boxes) of
                      [] \<Rightarrow> Inr None
                    | g # gs \<Rightarrow>
                        Inr (Some (y1 - y0,
                          map bbox (take (split_index (max_key gap_width_centers g gs) + 1)
                                      (sorted_boxes_by_cx boxes)),
                          map bbox (drop (split_index (max_key gap_width_centers g gs) + 1)
                                      (sorted_boxes_by_cx boxes)))))"
  unfolding split_columns_def assms
  by (auto simp: Let_def MIN_LAYOUT_HEIGHT_FOR_TWO_COLUMN_def
        MIN_BOXES_FOR_COLUMN_CONSIDERATION_def split: sum.splits list.splits)

lemma mirror_layout_four:
  assumes "bbox_layout l = Some [x0, y0, x1, y1]"
  shows "bbox_layout (mirror_layout l) = Some [x0, y0, x1, y1]"
    and "bbox_text (mirror_layout l) = map_option (map (mirror_box (x0 + x1))) (bbox_text l)"
  unfolding mirror_layout_def assms by simp_all

subsection \<open>Claims\<close>

text \<open>
  C1. A layout whose bounding box has a height below 300 or a width below 200 is
  classified as not two-column, whatever its text boxes are (lines 79-80).
\<close>

theorem too_small_layout_is_rejected:
  assumes "bbox_layout l = Some [x0, y0, x1, y1]"
      and "y1 - y0 < 300 \<or> x1 - x0 < 200"
    shows "detect_two_columns l = Inr False"
  by (simp add: detect_two_columns_def split_columns_too_small [OF assms])

theorem too_small_layout_is_rejected_witness:
  "bbox_layout (example_layout\<lparr>bbox_layout := Some [0, 0, 1000, 299]\<rparr>) = Some [0, 0, 1000, 299]
   \<and> ((299::int) - 0 < 300 \<or> (1000::int) - 0 < 200)
   \<and> detect_two_columns (example_layout\<lparr>bbox_layout := Some [0, 0, 1000, 299]\<rparr>) = Inr False"
proof -
  let ?l = "example_layout\<lparr>bbox_layout := Some [0, 0, 1000, 299]\<rparr>"
  have h1: "bbox_layout ?l = Some [0, 0, 1000, 299]" by simp
  have h2: "(299::int) - 0 < 300 \<or> (1000::int) - 0 < 200" by simp
  show ?thesis
    by (intro conjI h1 h2 too_small_layout_is_rejected [OF h1 h2])
qed

text \<open>
  C2, as the code has it. When the layout bounding box has width 0, the guard of lines
  43-44 returns \<^verbatim>\<open>False\<close> before either rule is tried: no box is reported as
  spanning, also one wider than 700 pixels.
\<close>

theorem zero_width_layout_never_spanning:
  assumes "lx1 - lx0 = 0"
  shows "is_likely_spanning_box [bx0, by0, bx1, by1] [lx0, ly0, lx1, ly1] = Inr False"
  using assms by (simp add: is_likely_spanning_box_def)

theorem absolute_rule_skipped_counterexample:
  "(5::int) - 5 = 0 \<and> (800::int) - 0 > 700
   \<and> is_likely_spanning_box [0, 0, 800, 10] [5, 0, 5, 100] = Inr False"
  by (simp add: is_likely_spanning_box_def)

theorem zero_width_layout_never_spanning_witness:
  "(5::int) - 5 = 0 \<and> is_likely_spanning_box [0, 0, 800, 10] [5, 0, 5, 100] = Inr False"
proof -
  have h: "(5::int) - 5 = 0" by simp
  show ?thesis by (intro conjI h zero_width_layout_never_spanning [OF h])
qed

text \<open>
  C5. When fewer than 4 boxes remain after the spanning boxes are removed, the layout is
  classified as not two-column (lines 88-89).
\<close>

theorem too_few_non_spanning_boxes_is_rejected:
  assumes "bbox_layout l = Some lb" and "bbox_text l = Some tbs"
      and "non_spanning_boxes tbs lb = Inr ns" and "length ns < 4"
    shows "detect_two_columns l = Inr False"
proof (cases "lb = [] \<or> tbs = []")
  case True
  with assms(1,2) show ?thesis
    by (auto simp: detect_two_columns_def split_columns_def)
next
  case False
  then obtain q where "unpack4 lb = Inr q"
    using non_spanning_boxes_Inr_unpack [OF assms(3)] by blast
  with False assms show ?thesis
    by (auto simp: detect_two_columns_def split_columns_def Let_def
          MIN_BOXES_FOR_COLUMN_CONSIDERATION_def split: prod.splits)
qed

theorem too_few_non_spanning_boxes_is_rejected_witness:
  "non_spanning_boxes ([0, 0, 900, 50] # take 3 example_boxes) [0, 0, 1000, 800]
     = Inr (take 3 example_boxes)
   \<and> length (take 3 example_boxes) < 4
   \<and> detect_two_columns
        (example_layout\<lparr>bbox_text := Some ([0, 0, 900, 50] # take 3 example_boxes)\<rparr>)
       = Inr False"
proof -
  let ?l = "example_layout\<lparr>bbox_text := Some ([0, 0, 900, 50] # take 3 example_boxes)\<rparr>"
  have h1: "bbox_layout ?l = Some [0, 0, 1000, 800]" by (simp add: example_layout_def)
  have h2: "bbox_text ?l = Some ([0, 0, 900, 50] # take 3 example_boxes)" by simp
  have h3: "non_spanning_boxes ([0, 0, 900, 50] # take 3 example_boxes) [0, 0, 1000, 800]
     = Inr (take 3 example_boxes)" by code_simp
  have h4: "length (take 3 example_boxes) < 4" by simp
  show ?thesis
    by (intro conjI h3 h4 too_few_non_spanning_boxes_is_rejected [OF h1 h2 h3 h4])
qed

text \<open>
  C7. A layout whose \<^verbatim>\<open>'bbox_layout'\<close> is absent or empty, or whose \<^verbatim>\<open>'bbox_text'\<close> is
  absent or empty, is classified as not two-column, and no exception is raised: the
  result is \<open>Inr False\<close>, not \<open>Inl\<close> (lines 69-73).
\<close>

theorem missing_geometry_is_rejected:
  assumes "bbox_layout l = None \<or> bbox_layout l = Some []
             \<or> bbox_text l = None \<or> bbox_text l = Some []"
    shows "detect_two_columns l = Inr False"
  using assms
  by (auto simp: detect_two_columns_def split_columns_def split: option.splits)

theorem missing_geometry_is_rejected_witness:
  "detect_two_columns (example_layout\<lparr>bbox_text := Some []\<rparr>) = Inr False
   \<and> detect_two_columns (example_layout\<lparr>bbox_layout := None\<rparr>) = Inr False"
proof -
  have a: "detect_two_columns (example_layout\<lparr>bbox_text := Some []\<rparr>) = Inr False"
    by (rule missing_geometry_is_rejected) simp
  have b: "detect_two_columns (example_layout\<lparr>bbox_layout := None\<rparr>) = Inr False"
    by (rule missing_geometry_is_rejected) simp
  show ?thesis by (intro conjI a b)
qed

text \<open>
  C8. The verdict is a function of the geometry alone: two layouts with the same
  \<^verbatim>\<open>'bbox_layout'\<close> and \<^verbatim>\<open>'bbox_text'\<close> get the same result, whatever their other keys
  hold (the debug flag the driver writes at line 383 among them).
\<close>

theorem verdict_depends_on_geometry_only:
  assumes "bbox_layout l1 = bbox_layout l2" and "bbox_text l1 = bbox_text l2"
  shows "detect_two_columns l1 = detect_two_columns l2"
  unfolding detect_two_columns_def split_columns_def assms ..

theorem verdict_depends_on_geometry_only_witness:
  "detect_two_columns (example_layout\<lparr>is_two_column_debug := Some True\<rparr>)
     = detect_two_columns example_layout"
  by (rule verdict_depends_on_geometry_only) simp_all

text \<open>
  C10. Whenever the column-height check of lines 163-164 is passed, the divisor
  \<^verbatim>\<open>shorter_column_height\<close> of line 174 is strictly positive: the layout is at least
  300 high (line 79), so each column height is at least 90.
\<close>

theorem shorter_column_height_positive:
  assumes "split_columns l = Inr (Some (lh, L, R))"
      and "height_L = Max (set (map (\<lambda>b. b ! 3) L)) - Min (set (map (\<lambda>b. b ! 1) L))"
      and "height_R = Max (set (map (\<lambda>b. b ! 3) R)) - Min (set (map (\<lambda>b. b ! 1) R))"
      and "\<not> (rat_of_int height_L < rat_of_int lh * MIN_COLUMN_HEIGHT_LAYOUT_RATIO
             \<or> rat_of_int height_R < rat_of_int lh * MIN_COLUMN_HEIGHT_LAYOUT_RATIO)"
    shows "0 < min height_L height_R"
proof -
  have "300 \<le> lh" by (rule split_columns_layout_height [OF assms(1)])
  then have "rat_of_int lh * MIN_COLUMN_HEIGHT_LAYOUT_RATIO \<ge> 90"
    by (simp add: MIN_COLUMN_HEIGHT_LAYOUT_RATIO_def)
  with assms(4) have "rat_of_int height_L \<ge> 90" "rat_of_int height_R \<ge> 90"
    by auto
  then have "height_L \<ge> 90" "height_R \<ge> 90" by linarith+
  then show ?thesis by simp
qed

theorem shorter_column_height_positive_witness:
  "split_columns example_layout = Inr (Some (800, take 2 example_boxes, drop 2 example_boxes))
   \<and> (0::int) < min 800 800"
proof -
  have a: "(800::int) = Max (set (map (\<lambda>b. b ! 3) (take 2 example_boxes)))
                     - Min (set (map (\<lambda>b. b ! 1) (take 2 example_boxes)))"
    by (simp add: example_boxes_def)
  have b: "(800::int) = Max (set (map (\<lambda>b. b ! 3) (drop 2 example_boxes)))
                     - Min (set (map (\<lambda>b. b ! 1) (drop 2 example_boxes)))"
    by (simp add: example_boxes_def)
  have c: "\<not> (rat_of_int 800 < rat_of_int 800 * MIN_COLUMN_HEIGHT_LAYOUT_RATIO
             \<or> rat_of_int 800 < rat_of_int 800 * MIN_COLUMN_HEIGHT_LAYOUT_RATIO)"
    by (simp add: MIN_COLUMN_HEIGHT_LAYOUT_RATIO_def)
  show ?thesis
    by (intro conjI split_columns_example
          shorter_column_height_positive [OF split_columns_example a b c])
qed

text \<open>
  C6. For a split that reaches the horizontal-separation check (both groups hold at least
  two boxes), let \<open>median_x_end_left\<close> be the median of the left group's \<^verbatim>\<open>x_end\<close> and
  \<open>median_x_start_right\<close> the median of the right group's \<^verbatim>\<open>x_start\<close>, each in the
  sense of \<^const>\<open>is_median\<close> (the middle order statistic, not a mean and not an
  extreme). The verdict is \<^verbatim>\<open>False\<close> when their difference is below -20, and is
  otherwise what the later vertical checks decide (lines 142-148).
\<close>

theorem horizontal_separation_uses_medians:
  assumes sp: "split_columns l = Inr (Some (lh, L, R))"
      and lL: "2 \<le> length L" and lR: "2 \<le> length R"
      and mL: "is_median (map (\<lambda>b. b ! 2) L) median_x_end_left"
      and mR: "is_median (map (\<lambda>b. b ! 0) R) median_x_start_right"
    shows "(median_x_start_right - median_x_end_left < - 20
              \<longrightarrow> detect_two_columns l = Inr False)
         \<and> (median_x_start_right - median_x_end_left \<ge> - 20
              \<longrightarrow> detect_two_columns l = Inr (vertical_cohesion lh L R))"
proof -
  have "map (\<lambda>b. b ! 2) L \<noteq> []" and "map (\<lambda>b. b ! 0) R \<noteq> []"
    using lL lR by auto
  then have "median (map (\<lambda>b. b ! 2) L) = median_x_end_left"
    and "median (map (\<lambda>b. b ! 0) R) = median_x_start_right"
    using mL mR by (simp_all add: is_median_median)
  then have "median_gap L R = median_x_start_right - median_x_end_left"
    by (simp add: median_gap_def)
  with sp lL lR show ?thesis
    by (auto simp: detect_two_columns_def validate_columns_def
          MIN_BOXES_PER_DETECTED_COLUMN_def ALLOWED_INTER_COLUMN_MEDIAN_OVERLAP_def)
qed

theorem horizontal_separation_uses_medians_witness:
  "is_median [100, 420, 420] 420 \<and> is_median [350, 350, 985] 350
   \<and> vertical_cohesion 800 [[90, 600, 100, 800], [0, 0, 420, 300], [10, 300, 420, 600]]
        [[350, 0, 700, 300], [350, 300, 710, 600], [985, 600, 995, 800]]
   \<and> detect_two_columns overlapping_layout = Inr False
   \<and> is_median [110, 120] 115 \<and> is_median [400, 410, 710, 720] 560
   \<and> detect_two_columns shuffled_layout = Inr True"
proof -
  let ?L = "[[90, 600, 100, 800], [0, 0, 420, 300], [10, 300, 420, 600]] :: int list list"
  let ?R = "[[350, 0, 700, 300], [350, 300, 710, 600], [985, 600, 995, 800]] :: int list list"
  have m1: "is_median [100, 420, 420] 420" by code_simp
  have m2: "is_median [350, 350, 985] 350" by code_simp
  have v: "vertical_cohesion 800 ?L ?R" by code_simp
  have a: "detect_two_columns overlapping_layout = Inr False"
    using horizontal_separation_uses_medians
            [OF split_columns_overlapping, of 420 350] m1 m2
    by simp
  have m3: "is_median [110, 120] 115" by code_simp
  have m4: "is_median [400, 410, 710, 720] 560" by code_simp
  have v': "vertical_cohesion 800 (take 2 example_boxes) (drop 2 example_boxes)" by code_simp
  have b: "detect_two_columns shuffled_layout = Inr True"
    using horizontal_separation_uses_medians
            [OF split_columns_shuffled, of 115 560] m3 m4 v'
    by (simp add: example_boxes_def)
  show ?thesis by (intro conjI m1 m2 v a m3 m4 b)
qed

text \<open>
  C3. Let \<open>srt\<close> be the non-spanning boxes with their x-centers, as the code sorts them:
  it is ascending in x-center, it holds exactly the non-spanning boxes, and each
  \<^verbatim>\<open>cx\<close> is the mean of the box's \<^verbatim>\<open>x_start\<close> and \<^verbatim>\<open>x_end\<close>. The candidates \<open>pgs\<close> are
  exactly the adjacent pairs \<open>(i, i+1)\<close> of \<open>srt\<close> whose midpoint lies in the central band
  and whose centers differ, each with the difference of the two centers as its width.
  The gap selected has maximal width and, among the candidates of that width, the
  smallest index \<open>i\<close>, that is the leftmost one: \<^verbatim>\<open>max\<close> keeps the first maximum. Its
  index splits \<open>srt\<close> into the left group \<open>0..i\<close> and the right group \<open>i+1..end\<close>
  (lines 94-135).
\<close>

theorem leftmost_maximal_gap_is_selected:
  assumes lb: "bbox_layout l = Some [lx0, ly0, lx1, ly1]"
      and tb: "bbox_text l = Some tbs"
      and ns: "non_spanning_boxes tbs [lx0, ly0, lx1, ly1] = Inr ns"
      and sp: "split_columns l = Inr (Some (lh, L, R))"
      and srt: "srt = sorted_boxes_by_cx ns"
      and pgs: "pgs = potential_gutters lx0 (lx1 - lx0) srt"
    shows "sorted (map cx srt) \<and> mset (map bbox srt) = mset ns
         \<and> (\<forall>c \<in> set srt. cx c = (rat_of_int (bbox c ! 0) + rat_of_int (bbox c ! 2)) / 2)
         \<and> (\<forall>i. i + 1 < length srt \<longrightarrow>
               ((\<exists>g \<in> set pgs. split_index g = i) \<longleftrightarrow>
                  rat_of_int lx0 + rat_of_int (lx1 - lx0) * (1 / 4)
                      \<le> (cx (srt ! i) + cx (srt ! (i + 1))) / 2
                  \<and> (cx (srt ! i) + cx (srt ! (i + 1))) / 2
                      \<le> rat_of_int lx0 + rat_of_int (lx1 - lx0) * (3 / 4)
                  \<and> 0 < cx (srt ! (i + 1)) - cx (srt ! i)))
         \<and> (\<forall>g \<in> set pgs. split_index g + 1 < length srt
               \<and> gap_width_centers g = cx (srt ! (split_index g + 1)) - cx (srt ! split_index g))
         \<and> (\<exists>best \<in> set pgs.
               (\<forall>g \<in> set pgs.
                   gap_width_centers g \<le> gap_width_centers best
                   \<and> (gap_width_centers g = gap_width_centers best
                        \<longrightarrow> split_index best \<le> split_index g))
               \<and> L = map bbox (take (split_index best + 1) srt)
               \<and> R = map bbox (drop (split_index best + 1) srt))"
proof -
  have s1: "sorted (map cx srt)" unfolding srt by (rule sorted_boxes_by_cx_sorted)
  have s2: "mset (map bbox srt) = mset ns" unfolding srt by (rule sorted_boxes_by_cx_mset)
  have s3: "\<forall>c \<in> set srt. cx c = (rat_of_int (bbox c ! 0) + rat_of_int (bbox c ! 2)) / 2"
    unfolding srt by (blast intro: sorted_boxes_by_cx_center)
  have s4: "\<forall>i. i + 1 < length srt \<longrightarrow>
               ((\<exists>g \<in> set pgs. split_index g = i) \<longleftrightarrow>
                  rat_of_int lx0 + rat_of_int (lx1 - lx0) * (1 / 4)
                      \<le> (cx (srt ! i) + cx (srt ! (i + 1))) / 2
                  \<and> (cx (srt ! i) + cx (srt ! (i + 1))) / 2
                      \<le> rat_of_int lx0 + rat_of_int (lx1 - lx0) * (3 / 4)
                  \<and> 0 < cx (srt ! (i + 1)) - cx (srt ! i))"
  proof (intro allI impI)
    fix i assume i: "i + 1 < length srt"
    let ?band = "rat_of_int lx0 + rat_of_int (lx1 - lx0) * (1 / 4)
                      \<le> (cx (srt ! i) + cx (srt ! (i + 1))) / 2
                  \<and> (cx (srt ! i) + cx (srt ! (i + 1))) / 2
                      \<le> rat_of_int lx0 + rat_of_int (lx1 - lx0) * (3 / 4)
                  \<and> 0 < cx (srt ! (i + 1)) - cx (srt ! i)"
    have "(\<exists>g \<in> set pgs. split_index g = i) \<longleftrightarrow> (\<exists>g. gutter_at lx0 (lx1 - lx0) srt i = Some g)"
    proof
      assume "\<exists>g \<in> set pgs. split_index g = i"
      then obtain g j where "j + 1 < length srt" "gutter_at lx0 (lx1 - lx0) srt j = Some g"
        "split_index g = i"
        by (auto simp: pgs potential_gutters_iff)
      moreover from this have "split_index g = j"
        unfolding gutter_at_Some by simp
      ultimately show "\<exists>g. gutter_at lx0 (lx1 - lx0) srt i = Some g" by auto
    next
      assume "\<exists>g. gutter_at lx0 (lx1 - lx0) srt i = Some g"
      then obtain g where g: "gutter_at lx0 (lx1 - lx0) srt i = Some g" by blast
      then have "split_index g = i" unfolding gutter_at_Some by simp
      moreover have "g \<in> set pgs" unfolding pgs potential_gutters_iff using i g by blast
      ultimately show "\<exists>g \<in> set pgs. split_index g = i" by blast
    qed
    also have "\<dots> \<longleftrightarrow> ?band" unfolding gutter_at_Some by blast
    finally show "(\<exists>g \<in> set pgs. split_index g = i) \<longleftrightarrow> ?band" .
  qed
  have s5: "\<forall>g \<in> set pgs. split_index g + 1 < length srt
               \<and> gap_width_centers g = cx (srt ! (split_index g + 1)) - cx (srt ! split_index g)"
  proof
    fix g assume "g \<in> set pgs"
    then obtain j where j: "j + 1 < length srt" "gutter_at lx0 (lx1 - lx0) srt j = Some g"
      unfolding pgs potential_gutters_iff by blast
    then have "split_index g = j" "gap_width_centers g = cx (srt ! (j + 1)) - cx (srt ! j)"
      unfolding gutter_at_Some by simp_all
    with j show "split_index g + 1 < length srt
               \<and> gap_width_centers g = cx (srt ! (split_index g + 1)) - cx (srt ! split_index g)"
      by simp
  qed
  from sp lb tb ns obtain g gs where gg: "pgs = g # gs"
    unfolding pgs srt
    by (auto simp: split_columns_def Let_def split: if_splits list.splits)
  define best where "best = max_key gap_width_centers g gs"
  from sp lb tb ns gg have L: "L = map bbox (take (split_index best + 1) srt)"
    and R: "R = map bbox (drop (split_index best + 1) srt)"
    unfolding pgs srt
    by (auto simp: split_columns_def Let_def best_def split: if_splits)
  from max_key_first [of g gs gap_width_centers] obtain ys zs where
    dec: "pgs = ys @ best # zs"
    and lt: "\<forall>y \<in> set ys. gap_width_centers y < gap_width_centers best"
    and le: "\<forall>z \<in> set zs. gap_width_centers z \<le> gap_width_centers best"
    unfolding best_def gg by blast
  have mem: "best \<in> set pgs" unfolding dec by simp
  have max: "gap_width_centers h \<le> gap_width_centers best" if "h \<in> set pgs" for h
    using that lt le unfolding dec by (auto simp: less_imp_le)
  have idx: "sorted_wrt (<) (map split_index pgs)"
    unfolding pgs by (rule strict_sorted_split_index)
  have first: "split_index best \<le> split_index h"
    if "h \<in> set pgs" "gap_width_centers h = gap_width_centers best" for h
    by (rule first_max_is_leftmost [OF dec lt idx that])
  from mem max first L R have s6: "\<exists>best \<in> set pgs.
               (\<forall>g \<in> set pgs.
                   gap_width_centers g \<le> gap_width_centers best
                   \<and> (gap_width_centers g = gap_width_centers best
                        \<longrightarrow> split_index best \<le> split_index g))
               \<and> L = map bbox (take (split_index best + 1) srt)
               \<and> R = map bbox (drop (split_index best + 1) srt)"
    by blast
  show ?thesis by (intro conjI s1 s2 s3 s4 s5 s6)
qed

theorem leftmost_maximal_gap_is_selected_witness:
  "map cx (sorted_boxes_by_cx shuffled_boxes) = [100, 110, 410, 420, 720, 730]
   \<and> map bbox (sorted_boxes_by_cx shuffled_boxes) = example_boxes
   \<and> map gap_width_centers (potential_gutters 0 (1000 - 0) (sorted_boxes_by_cx shuffled_boxes))
       = [300, 10, 300, 10]
   \<and> map split_index (potential_gutters 0 (1000 - 0) (sorted_boxes_by_cx shuffled_boxes))
       = [1, 2, 3, 4]
   \<and> split_columns shuffled_layout
       = Inr (Some (800, take 2 example_boxes, drop 2 example_boxes))
   \<and> (\<exists>best \<in> set (potential_gutters 0 (1000 - 0) (sorted_boxes_by_cx shuffled_boxes)).
         split_index best = 1
         \<and> take 2 example_boxes
             = map bbox (take (split_index best + 1) (sorted_boxes_by_cx shuffled_boxes)))"
proof -
  let ?srt = "sorted_boxes_by_cx shuffled_boxes"
  let ?pgs = "potential_gutters 0 (1000 - 0) ?srt"
  have c: "map cx ?srt = [100, 110, 410, 420, 720, 730]" by code_simp
  have b: "map bbox ?srt = example_boxes" by code_simp
  have w: "map gap_width_centers ?pgs = [300, 10, 300, 10]" by code_simp
  have i: "map split_index ?pgs = [1, 2, 3, 4]" by code_simp
  have h1: "bbox_layout shuffled_layout = Some [0, 0, 1000, 800]"
    by (simp add: shuffled_layout_def example_layout_def)
  have h2: "bbox_text shuffled_layout = Some shuffled_boxes"
    by (simp add: shuffled_layout_def)
  have h3: "non_spanning_boxes shuffled_boxes [0, 0, 1000, 800] = Inr shuffled_boxes"
    by code_simp
  from leftmost_maximal_gap_is_selected [OF h1 h2 h3 split_columns_shuffled refl refl]
  obtain best where bm: "best \<in> set ?pgs"
    and m: "\<forall>g \<in> set ?pgs. gap_width_centers g \<le> gap_width_centers best
                 \<and> (gap_width_centers g = gap_width_centers best
                      \<longrightarrow> split_index best \<le> split_index g)"
    and L: "take 2 example_boxes = map bbox (take (split_index best + 1) ?srt)"
    by blast
  obtain g1 g2 g3 g4 where pgs: "?pgs = [g1, g2, g3, g4]"
    using w by (auto simp: map_eq_Cons_conv)
  from w i pgs have vals: "gap_width_centers g1 = 300" "gap_width_centers g2 = 10"
    "gap_width_centers g3 = 300" "gap_width_centers g4 = 10"
    "split_index g1 = 1" "split_index g2 = 2" "split_index g3 = 3" "split_index g4 = 4"
    by simp_all
  from m pgs vals have "gap_width_centers best \<ge> 300" by auto
  with bm pgs vals have "best = g1 \<or> best = g3" by auto
  moreover have "best \<noteq> g3 \<or> split_index best = 1"
    using m pgs vals by auto
  ultimately have "split_index best = 1" using vals by auto
  with bm L have "\<exists>best \<in> set ?pgs. split_index best = 1
         \<and> take 2 example_boxes = map bbox (take (split_index best + 1) ?srt)"
    by blast
  then show ?thesis by (intro conjI c b w i split_columns_shuffled)
qed

text \<open>
  C4. Mirroring every text box and the layout box about the vertical center line of the
  layout box does not always preserve the verdict: when two candidates share the largest
  width, \<^verbatim>\<open>max\<close> takes the leftmost one, and the leftmost one of the mirrored layout is
  the mirror image of the rightmost one. In \<^const>\<open>example_layout\<close> the gaps from 110 to
  410 and from 420 to 720 are both 300 wide. The original is split after its second box
  and accepted; its mirror image is split after the images of the last two boxes, which
  span only 200 of the 800 pixels of height, and is rejected.

  What holds is the symmetry for layouts whose widest candidate is unique: then the
  mirrored layout gets the same result, verdict or exception. The two columns change
  roles, the sorted order of boxes with equal centers may differ, and the checks of
  lines 137-177 depend on neither.
\<close>

theorem mirror_preserves_verdict_for_unique_widest_gap:
  assumes uniq: "widest_gap_unique l"
  shows "detect_two_columns (mirror_layout l) = detect_two_columns l"
proof (cases "bbox_layout l")
  case None
  then show ?thesis by (simp add: mirror_layout_def)
next
  case (Some lb)
  show ?thesis
  proof (cases "unpack4 lb")
    case (Inl e)
    with Some show ?thesis by (simp add: mirror_layout_def)
  next
    case (Inr q)
    then obtain x0 y0 x1 y1 where lb: "lb = [x0, y0, x1, y1]" by (auto simp: unpack4_Inr)
    have bl: "bbox_layout l = Some [x0, y0, x1, y1]" using Some lb by simp
    let ?m = "mirror_box (x0 + x1)"
    note ml = mirror_layout_four [OF bl]
    show ?thesis
    proof (cases "bbox_text l")
      case None
      then have "bbox_text (mirror_layout l) = None" unfolding ml by simp
      then have "split_columns (mirror_layout l) = Inr None"
        unfolding split_columns_def ml(1) by simp
      moreover have "split_columns l = Inr None" unfolding split_columns_def bl None by simp
      ultimately show ?thesis unfolding detect_two_columns_def by simp
    next
      case (Some tbs)
      have bt: "bbox_text l = Some tbs" by (rule Some)
      have bt': "bbox_text (mirror_layout l) = Some (map ?m tbs)" unfolding ml bt by simp
      note sc = split_columns_four [OF bl bt]
      note sc' = split_columns_four [OF ml(1) bt']
      show ?thesis
      proof (cases "tbs = [] \<or> y1 - y0 < 300 \<or> x1 - x0 < 200")
        case True
        then have "split_columns l = Inr None" "split_columns (mirror_layout l) = Inr None"
          unfolding sc sc' by auto
        then show ?thesis unfolding detect_two_columns_def by simp
      next
        case big: False
        show ?thesis
        proof (cases "non_spanning_boxes tbs [x0, y0, x1, y1]")
          case (Inl e)
          then have "non_spanning_boxes (map ?m tbs) [x0, y0, x1, y1] = Inl e"
            unfolding non_spanning_boxes_mirror by simp
          with Inl big have "split_columns l = Inl e" "split_columns (mirror_layout l) = Inl e"
            unfolding sc sc' by auto
          then show ?thesis unfolding detect_two_columns_def by simp
        next
          case (Inr ns)
          then have ns': "non_spanning_boxes (map ?m tbs) [x0, y0, x1, y1] = Inr (map ?m ns)"
            unfolding non_spanning_boxes_mirror by simp
          note ns = Inr
          show ?thesis
          proof (cases "length ns < 4")
            case True
            with ns ns' big
            have "split_columns l = Inr None" "split_columns (mirror_layout l) = Inr None"
              unfolding sc sc' by auto
            then show ?thesis unfolding detect_two_columns_def by simp
          next
            case enough: False
            define srt where "srt = sorted_boxes_by_cx ns"
            define srt' where "srt' = sorted_boxes_by_cx (map ?m ns)"
            have four: "\<forall>b \<in> set ns. \<exists>x0 y0 x1 y1. b = [x0, y0, x1, y1]"
              using non_spanning_boxes_four [OF ns] by blast
            have len: "length srt' = length srt"
              unfolding srt_def srt'_def by (simp add: length_sorted_boxes_by_cx)
            have cs: "map cx srt' = rev (map (\<lambda>v. rat_of_int (x0 + x1) - v) (map cx srt))"
              unfolding srt_def srt'_def by (rule mirror_centers [OF four])
            have s: "split_columns l =
                (case potential_gutters x0 (x1 - x0) srt of
                      [] \<Rightarrow> Inr None
                    | g # gs \<Rightarrow>
                        Inr (Some (y1 - y0,
                          map bbox (take (split_index (max_key gap_width_centers g gs) + 1) srt),
                          map bbox (drop (split_index (max_key gap_width_centers g gs) + 1) srt))))"
              using big enough unfolding sc ns srt_def by simp
            have s': "split_columns (mirror_layout l) =
                (case potential_gutters x0 (x1 - x0) srt' of
                      [] \<Rightarrow> Inr None
                    | g # gs \<Rightarrow>
                        Inr (Some (y1 - y0,
                          map bbox (take (split_index (max_key gap_width_centers g gs) + 1) srt'),
                          map bbox (drop (split_index (max_key gap_width_centers g gs) + 1) srt'))))"
              using big enough unfolding sc' ns' srt'_def by simp
            show ?thesis
            proof (cases "potential_gutters x0 (x1 - x0) srt")
              case Nil
              then have "potential_gutters x0 (x1 - x0) srt' = []"
                unfolding potential_gutters_mirror_empty [OF len cs] .
              with Nil have "split_columns l = Inr None" "split_columns (mirror_layout l) = Inr None"
                unfolding s s' by simp_all
              then show ?thesis unfolding detect_two_columns_def by simp
            next
              case (Cons g gs)
              then have "potential_gutters x0 (x1 - x0) srt' \<noteq> []"
                unfolding potential_gutters_mirror_empty [OF len cs] by simp
              then obtain g' gs' where pg': "potential_gutters x0 (x1 - x0) srt' = g' # gs'"
                by (cases "potential_gutters x0 (x1 - x0) srt'") auto
              note pg = Cons
              have u: "unique_widest (g # gs)"
                using uniq unfolding widest_gap_unique_def bl bt
                by (simp add: ns srt_def [symmetric] pg)
              define i where "i = split_index (max_key gap_width_centers g gs)"
              define j where "j = split_index (max_key gap_width_centers g' gs')"
              define L where "L = map bbox (take (i + 1) srt)"
              define R where "R = map bbox (drop (i + 1) srt)"
              define L' where "L' = map bbox (take (j + 1) srt')"
              define R' where "R' = map bbox (drop (j + 1) srt')"
              note mc = mirror_columns [OF four srt_def srt'_def pg pg' u i_def j_def]
              have mL: "mset L' = image_mset ?m (mset R)" unfolding L'_def R_def by (rule mc(1))
              have mR: "mset R' = image_mset ?m (mset L)" unfolding R'_def L_def by (rule mc(2))
              have "L @ R = map bbox srt" unfolding L_def R_def by (simp flip: map_append)
              then have "mset (L @ R) = mset ns"
                unfolding srt_def by (simp only: sorted_boxes_by_cx_mset)
              then have "set (L @ R) = set ns" by (rule mset_eq_setD)
              with four have fLR: "\<forall>b \<in> set L \<union> set R. \<exists>x0 y0 x1 y1. b = [x0, y0, x1, y1]"
                by simp
              have v: "validate_columns (y1 - y0) L' R' = validate_columns (y1 - y0) L R"
                by (rule validate_columns_mirror [OF mL mR fLR])
              have "split_columns l = Inr (Some (y1 - y0, L, R))"
                unfolding s pg L_def R_def i_def by simp
              moreover have "split_columns (mirror_layout l) = Inr (Some (y1 - y0, L', R'))"
                unfolding s' pg' L'_def R'_def j_def by simp
              ultimately show ?thesis unfolding detect_two_columns_def by (simp add: v)
            qed
          qed
        qed
      qed
    qed
  qed
qed

theorem mirror_changes_verdict_counterexample:
  "detect_two_columns example_layout = Inr True
     \<and> bbox_layout (mirror_layout example_layout) = Some [0, 0, 1000, 800]
     \<and> bbox_text (mirror_layout example_layout)
         = Some [[890, 0, 910, 400], [880, 400, 900, 800],
                 [580, 0, 600, 400], [570, 400, 590, 800],
                 [270, 0, 290, 100], [260, 100, 280, 200]]
     \<and> detect_two_columns (mirror_layout example_layout) = Inr False"
  by code_simp

theorem mirror_preserves_verdict_for_unique_widest_gap_witness:
  "widest_gap_unique two_column_layout
     \<and> bbox_text (mirror_layout two_column_layout)
         = Some [[290, 0, 310, 400], [890, 0, 910, 400], [280, 400, 300, 800], [880, 400, 900, 800]]
     \<and> detect_two_columns two_column_layout = Inr True
     \<and> detect_two_columns (mirror_layout two_column_layout) = Inr True"
proof -
  have h: "widest_gap_unique two_column_layout" by code_simp
  have m: "bbox_text (mirror_layout two_column_layout)
         = Some [[290, 0, 310, 400], [890, 0, 910, 400], [280, 400, 300, 800], [880, 400, 900, 800]]"
    by code_simp
  have v: "detect_two_columns two_column_layout = Inr True" by code_simp
  have "detect_two_columns (mirror_layout two_column_layout) = Inr True"
    unfolding mirror_preserves_verdict_for_unique_widest_gap [OF h] by (rule v)
  with h m v show ?thesis by (intro conjI)
qed

end
